theory Spec2Isabelle
  imports Complex_Main
begin

section \<open>The procedural dungeon generator (Tools/generators/dungeon\_generator.py)\<close>

text \<open>
  A shallow embedding of \<^verbatim>\<open>DungeonGenerator\<close>. Python's unbounded integers are \<open>int\<close>,
  every \<^verbatim>\<open>raise\<close> of the interpreter is a value of \<open>error\<close>, and the mutable generator
  object is a record that every phase takes and returns.

  Three parts of the interpreter are not program text and are parameters of the model
  (record \<open>runtime\<close>):
  \<^item> the pseudo-random generator. \<^verbatim>\<open>random.seed(s)\<close> fixes the sequence of all later
    results; \<open>prng s\<close> is that sequence, as a tape of integers. Each call of
    \<^verbatim>\<open>randint\<close>, \<^verbatim>\<open>random\<close>, \<^verbatim>\<open>choice\<close> reads one entry and maps it onto its range, and
    \<^verbatim>\<open>sample\<close> reads one entry for each element it selects; a tape that is used up reads as
    zeros. Every sequence of results the library can return is the reading of some tape.
  \<^item> the state of the module-level generator before \<^verbatim>\<open>random.seed\<close> is called (\<open>ambient\<close>),
    from which the constructor draws a seed when it is given none.
  \<^item> the order in which a \<^verbatim>\<open>set\<close> of integers is iterated (\<open>set_slot\<close>): the elements are
    visited by increasing slot of the hash table, and the slot of an element depends on the
    set's history.

  A finite double is modelled by the rational it denotes: \<^verbatim>\<open>random.random()\<close> is
  \<open>k / 2^53\<close>, and the configured probabilities and the trap density are \<open>rat\<close>. The sums
  and the product the program computes on them are rounded as the hardware rounds them, to
  the nearest double with ties to even (\<open>round_double\<close>), and a product that overflows
  raises \<^verbatim>\<open>OverflowError\<close> when it is converted to an integer.
  \<^verbatim>\<open>_room_distance\<close> is only ever compared with other distances, so the model computes
  the square of the distance, an integer, and compares squares.
\<close>

subsection \<open>Data model\<close>

datatype RoomType =
  ENTRANCE | CORRIDOR | COMBAT | PUZZLE | TREASURE | BOSS | SKILL_CHECK | SAFE | SECRET

datatype TileType =
  FLOOR | WALL | DOOR | LOCKED_DOOR | TRAP | WATER | LAVA | PIT | STAIRS_UP | STAIRS_DOWN

datatype error = ValueError | IndexError | KeyError | TypeError | OverflowError

text \<open>Values of the configuration's dictionaries; a dictionary is an association list.\<close>

datatype jval = JInt int | JStr string | JList "string list"

type_synonym pydict = "(string \<times> jval) list"

definition dict_get :: "pydict \<Rightarrow> string \<Rightarrow> jval \<Rightarrow> jval" where
  "dict_get d k dflt = (case map_of d k of None \<Rightarrow> dflt | Some v \<Rightarrow> v)"

text \<open>
  The two shapes of encounter dictionary the generator builds: a monster with a position
  (\<^verbatim>\<open>_generate_encounters\<close>) and a boss with \<^verbatim>\<open>is_boss\<close> and \<^verbatim>\<open>mechanics\<close>
  (\<^verbatim>\<open>_generate_boss_encounter\<close>), which has no position.
\<close>

datatype encounter =
  MonsterEnc jval jval int int
  | BossEnc jval jval jval

record loot_item =
  item_id :: jval
  quantity :: int

datatype puzzle_desc =
  LeverSequence int | PressurePlates int | SymbolMatching int | TorchLighting int
  | BlockPushing int

record Room =
  room_id :: int
  room_type :: RoomType
  room_x :: int
  room_y :: int
  room_width :: int
  room_height :: int
  connections :: "int list"
  encounters :: "encounter list"
  loot :: "loot_item list"
  puzzle :: "puzzle_desc option"
  skill_requirement :: "pydict option"

record DungeonConfig =
  name :: string
  theme :: string
  difficulty :: string
  min_rooms :: int
  max_rooms :: int
  min_room_size :: int
  max_room_size :: int
  width :: int
  height :: int
  combat_room_chance :: rat
  puzzle_room_chance :: rat
  treasure_room_chance :: rat
  secret_room_chance :: rat
  trap_density :: rat
  required_skills :: "pydict list"
  monster_table :: "pydict list"
  loot_table :: "pydict list"
  boss_config :: "pydict option"

type_synonym tape = "int list"

type_synonym grid_t = "TileType list list"

record runtime =
  prng :: "int \<Rightarrow> tape"
  ambient :: tape
  set_slot :: "nat list \<Rightarrow> nat \<Rightarrow> nat"

text \<open>The generator object: \<^verbatim>\<open>self.seed\<close>, \<^verbatim>\<open>self.rooms\<close>, \<^verbatim>\<open>self.grid\<close>,
  \<^verbatim>\<open>self.next_room_id\<close> and the state of the random generator.\<close>

record gen_state =
  seed :: int
  rooms :: "Room list"
  grid :: grid_t
  next_room_id :: int
  rng :: tape

text \<open>The dictionary \<^verbatim>\<open>_export\<close> returns. Each room dictionary has the fields of the
  \<open>Room\<close> it is built from (\<^verbatim>\<open>bounds\<close> groups the four coordinates), and the enumeration
  members stand for their \<^verbatim>\<open>.value\<close> strings.\<close>

record metadata =
  md_name :: string
  md_theme :: string
  md_difficulty :: string
  md_seed :: int
  md_width :: int
  md_height :: int

record dungeon =
  d_metadata :: metadata
  d_rooms :: "Room list"
  d_grid :: grid_t
  d_required_skills :: "pydict list"

subsection \<open>The random module\<close>

fun draw :: "tape \<Rightarrow> int \<times> tape" where
  "draw [] = (0, [])"
| "draw (n # ns) = (n, ns)"

definition randint :: "int \<Rightarrow> int \<Rightarrow> tape \<Rightarrow> error + (int \<times> tape)" where
  "randint a b t =
     (if b < a then Inl ValueError
      else case draw t of (n, t') \<Rightarrow> Inr (a + n mod (b - a + 1), t'))"

definition random :: "tape \<Rightarrow> rat \<times> tape" where
  "random t = (case draw t of (n, t') \<Rightarrow>
     (rat_of_int (n mod 9007199254740992) / 9007199254740992, t'))"

definition choice :: "'a list \<Rightarrow> tape \<Rightarrow> error + ('a \<times> tape)" where
  "choice xs t =
     (if xs = [] then Inl IndexError
      else case draw t of (n, t') \<Rightarrow> Inr (xs ! nat (n mod int (length xs)), t'))"

fun sample_from :: "'a list \<Rightarrow> nat \<Rightarrow> tape \<Rightarrow> 'a list \<times> tape" where
  "sample_from pool 0 t = ([], t)"
| "sample_from pool (Suc k) t =
     (if pool = [] then ([], t)
      else case draw t of (n, t') \<Rightarrow>
        (let i = nat (n mod int (length pool)) in
         case sample_from (take i pool @ drop (Suc i) pool) k t' of
           (ys, t'') \<Rightarrow> (pool ! i # ys, t'')))"

definition sample :: "'a list \<Rightarrow> int \<Rightarrow> tape \<Rightarrow> error + ('a list \<times> tape)" where
  "sample population k t =
     (if k < 0 \<or> int (length population) < k then Inl ValueError
      else Inr (sample_from population (nat k) t))"

subsection \<open>Double-precision arithmetic\<close>

text \<open>\<^verbatim>\<open>n.bit_length()\<close> for a positive integer.\<close>

function bit_length :: "int \<Rightarrow> nat" where
  "bit_length n = (if n \<le> 0 then 0 else Suc (bit_length (n div 2)))"
  by pat_completeness auto
termination
  by (relation "measure nat") auto

declare bit_length.simps [simp del]

text \<open>The exponent \<open>l\<close> with \<open>2^l \<le> q < 2^(l+1)\<close>, for a positive \<open>q\<close>.\<close>

definition floor_log2 :: "rat \<Rightarrow> int" where
  "floor_log2 q =
     (if 1 \<le> q then int (bit_length \<lfloor>q\<rfloor>) - 1
      else - int (bit_length (\<lceil>1 / q\<rceil> - 1)))"

definition round_half_even :: "rat \<Rightarrow> int" where
  "round_half_even x =
     (let f = \<lfloor>x\<rfloor>; r = x - rat_of_int f in
      if r < 1 / 2 then f
      else if 1 / 2 < r then f + 1
      else if even f then f else f + 1)"

text \<open>Rounding to the nearest double: 53 significant bits, ties to even, and a least
  exponent of \<open>-1074\<close> for the subnormal numbers. There is no infinity in the model; a
  result of magnitude \<open>2^1024\<close> or more is what the hardware returns as infinity.\<close>

definition round_double :: "rat \<Rightarrow> rat" where
  "round_double q =
     (if q = 0 then 0
      else
        (let a = \<bar>q\<bar>;
             e = max (floor_log2 a - 52) (- 1074);
             m = rat_of_int (round_half_even (a / power_int 2 e)) * power_int 2 e
         in if q < 0 then - m else m))"

definition is_inf :: "rat \<Rightarrow> bool" where
  "is_inf q = (power_int 2 1024 \<le> \<bar>q\<bar>)"

subsection \<open>Loops and indexing\<close>

text \<open>\<^verbatim>\<open>range(a, b)\<close>, and a \<^verbatim>\<open>for\<close> loop whose body may raise.\<close>

definition py_range :: "int \<Rightarrow> int \<Rightarrow> int list" where
  "py_range a b = [a..b - 1]"

fun for_each :: "('a \<Rightarrow> 's \<Rightarrow> error + 's) \<Rightarrow> 'a list \<Rightarrow> 's \<Rightarrow> error + 's" where
  "for_each body [] s = Inr s"
| "for_each body (x # xs) s =
     (case body x s of Inl e \<Rightarrow> Inl e | Inr s' \<Rightarrow> for_each body xs s')"

text \<open>List indexing: a negative index counts from the end, an index out of range raises.\<close>

definition py_index :: "nat \<Rightarrow> int \<Rightarrow> error + nat" where
  "py_index n i =
     (if 0 \<le> i \<and> i < int n then Inr (nat i)
      else if - int n \<le> i \<and> i < 0 then Inr (nat (int n + i))
      else Inl IndexError)"

definition grid_set :: "int \<Rightarrow> int \<Rightarrow> TileType \<Rightarrow> grid_t \<Rightarrow> error + grid_t" where
  "grid_set x y v g =
     (case py_index (length g) y of
        Inl e \<Rightarrow> Inl e
      | Inr j \<Rightarrow>
          (case py_index (length (g ! j)) x of
             Inl e \<Rightarrow> Inl e
           | Inr i \<Rightarrow> Inr (g[j := (g ! j)[i := v]])))"

definition rooms_at :: "Room list \<Rightarrow> nat \<Rightarrow> error + Room" where
  "rooms_at rs i = (if i < length rs then Inr (rs ! i) else Inl IndexError)"

subsection \<open>Placement\<close>

fun check_room_overlap :: "Room list \<Rightarrow> int \<Rightarrow> int \<Rightarrow> int \<Rightarrow> int \<Rightarrow> bool" where
  "check_room_overlap [] x y w h = False"
| "check_room_overlap (room # rest) x y w h =
     (if x < room_x room + room_width room + 2 \<and>
         x + w + 2 > room_x room \<and>
         y < room_y room + room_height room + 2 \<and>
         y + h + 2 > room_y room
      then True
      else check_room_overlap rest x y w h)"

definition carve_room :: "Room \<Rightarrow> grid_t \<Rightarrow> error + grid_t" where
  "carve_room room g =
     for_each
       (\<lambda>y. for_each (\<lambda>x. grid_set x y FLOOR)
              (py_range (room_x room) (room_x room + room_width room)))
       (py_range (room_y room) (room_y room + room_height room)) g"

definition new_room :: "int \<Rightarrow> RoomType \<Rightarrow> int \<Rightarrow> int \<Rightarrow> int \<Rightarrow> int \<Rightarrow> Room" where
  "new_room i ty x y w h =
     \<lparr>room_id = i, room_type = ty, room_x = x, room_y = y, room_width = w,
      room_height = h, connections = [], encounters = [], loot = [], puzzle = None,
      skill_requirement = None\<rparr>"

text \<open>One pass of the placement loop body, after the \<^verbatim>\<open>break\<close> test.\<close>

definition place_trial :: "DungeonConfig \<Rightarrow> gen_state \<Rightarrow> error + gen_state" where
  "place_trial cfg s =
     (case randint (min_room_size cfg) (max_room_size cfg) (rng s) of
        Inl e \<Rightarrow> Inl e
      | Inr (w, t1) \<Rightarrow>
     (case randint (min_room_size cfg) (max_room_size cfg) t1 of
        Inl e \<Rightarrow> Inl e
      | Inr (h, t2) \<Rightarrow>
     (case randint 2 (width cfg - w - 2) t2 of
        Inl e \<Rightarrow> Inl e
      | Inr (x, t3) \<Rightarrow>
     (case randint 2 (height cfg - h - 2) t3 of
        Inl e \<Rightarrow> Inl e
      | Inr (y, t4) \<Rightarrow>
          if \<not> check_room_overlap (rooms s) x y w h
          then
            (let room = new_room (next_room_id s) CORRIDOR x y w h in
             case carve_room room (grid s) of
               Inl e \<Rightarrow> Inl e
             | Inr g \<Rightarrow>
                 Inr (s\<lparr>rooms := rooms s @ [room], grid := g,
                        next_room_id := next_room_id s + 1, rng := t4\<rparr>))
          else Inr (s\<lparr>rng := t4\<rparr>)))))"

fun place_loop :: "DungeonConfig \<Rightarrow> int \<Rightarrow> nat \<Rightarrow> gen_state \<Rightarrow> error + gen_state" where
  "place_loop cfg num_rooms 0 s = Inr s"
| "place_loop cfg num_rooms (Suc k) s =
     (if int (length (rooms s)) \<ge> num_rooms then Inr s
      else case place_trial cfg s of
             Inl e \<Rightarrow> Inl e
           | Inr s' \<Rightarrow> place_loop cfg num_rooms k s')"

definition generate_rooms_bsp :: "DungeonConfig \<Rightarrow> gen_state \<Rightarrow> error + gen_state" where
  "generate_rooms_bsp cfg s =
     (case randint (min_rooms cfg) (max_rooms cfg) (rng s) of
        Inl e \<Rightarrow> Inl e
      | Inr (num_rooms, t) \<Rightarrow> place_loop cfg num_rooms (nat (num_rooms * 3)) (s\<lparr>rng := t\<rparr>))"

subsection \<open>Corridors and connectivity\<close>

definition room_center :: "Room \<Rightarrow> int \<times> int" where
  "room_center r = (room_x r + room_width r div 2, room_y r + room_height r div 2)"

definition room_distance_sq :: "Room \<Rightarrow> Room \<Rightarrow> int" where
  "room_distance_sq r1 r2 =
     (let c1 = room_center r1; c2 = room_center r2
      in (fst c1 - fst c2)\<^sup>2 + (snd c1 - snd c2)\<^sup>2)"

definition carve_cell :: "DungeonConfig \<Rightarrow> int \<Rightarrow> int \<Rightarrow> grid_t \<Rightarrow> error + grid_t" where
  "carve_cell cfg x y g =
     (if 0 \<le> x \<and> x < width cfg \<and> 0 \<le> y \<and> y < height cfg then grid_set x y FLOOR g
      else Inr g)"

definition carve_h_corridor ::
  "DungeonConfig \<Rightarrow> int \<Rightarrow> int \<Rightarrow> int \<Rightarrow> grid_t \<Rightarrow> error + grid_t" where
  "carve_h_corridor cfg x1 x2 y g =
     for_each (\<lambda>x. carve_cell cfg x y) (py_range (min x1 x2) (max x1 x2 + 1)) g"

definition carve_v_corridor ::
  "DungeonConfig \<Rightarrow> int \<Rightarrow> int \<Rightarrow> int \<Rightarrow> grid_t \<Rightarrow> error + grid_t" where
  "carve_v_corridor cfg y1 y2 x g =
     for_each (\<lambda>y. carve_cell cfg x y) (py_range (min y1 y2) (max y1 y2 + 1)) g"

definition carve_corridor ::
  "DungeonConfig \<Rightarrow> Room \<Rightarrow> Room \<Rightarrow> grid_t \<times> tape \<Rightarrow> error + (grid_t \<times> tape)" where
  "carve_corridor cfg r1 r2 gt =
     (let c1 = room_center r1; c2 = room_center r2 in
      case random (snd gt) of (p, t') \<Rightarrow>
        if p < round_double (1 / 2) then
          (case carve_h_corridor cfg (fst c1) (fst c2) (snd c1) (fst gt) of
             Inl e \<Rightarrow> Inl e
           | Inr g1 \<Rightarrow>
               (case carve_v_corridor cfg (snd c1) (snd c2) (fst c2) g1 of
                  Inl e \<Rightarrow> Inl e
                | Inr g2 \<Rightarrow> Inr (g2, t')))
        else
          (case carve_v_corridor cfg (snd c1) (snd c2) (fst c1) (fst gt) of
             Inl e \<Rightarrow> Inl e
           | Inr g1 \<Rightarrow>
               (case carve_h_corridor cfg (fst c1) (fst c2) (snd c2) g1 of
                  Inl e \<Rightarrow> Inl e
                | Inr g2 \<Rightarrow> Inr (g2, t'))))"

text \<open>Iterating a set of indices: by increasing slot.\<close>

definition set_iter :: "runtime \<Rightarrow> nat list \<Rightarrow> nat list" where
  "set_iter rt xs = sort_key (set_slot rt xs) xs"

text \<open>The two nested \<^verbatim>\<open>for\<close> loops of the spanning-tree step. \<open>None\<close> is \<^verbatim>\<open>float('inf')\<close>.\<close>

definition best_step ::
  "Room list \<Rightarrow> nat \<Rightarrow> nat \<Rightarrow> int option \<times> nat \<times> nat \<Rightarrow> error + (int option \<times> nat \<times> nat)"
  where
  "best_step rs c u acc =
     (case rooms_at rs c of
        Inl e \<Rightarrow> Inl e
      | Inr rc \<Rightarrow>
     (case rooms_at rs u of
        Inl e \<Rightarrow> Inl e
      | Inr ru \<Rightarrow>
          (let dist = room_distance_sq rc ru in
           if (case fst acc of None \<Rightarrow> True | Some best_dist \<Rightarrow> dist < best_dist)
           then Inr (Some dist, (c, u))
           else Inr acc)))"

definition find_best_pair ::
  "Room list \<Rightarrow> nat list \<Rightarrow> nat list \<Rightarrow> error + (int option \<times> nat \<times> nat)" where
  "find_best_pair rs cs us =
     for_each (\<lambda>c. for_each (\<lambda>u. best_step rs c u) us) cs (None, (0, 1))"

definition add_connection :: "int \<Rightarrow> Room \<Rightarrow> Room" where
  "add_connection j r = r\<lparr>connections := connections r @ [j]\<rparr>"

definition set_add :: "nat \<Rightarrow> nat list \<Rightarrow> nat list" where
  "set_add x xs = (if x \<in> set xs then xs else xs @ [x])"

text \<open>Carving the corridor between the rooms at two indices and recording the edge in
  both rooms (by the second index, then the first).\<close>

definition link_rooms ::
  "DungeonConfig \<Rightarrow> nat \<Rightarrow> nat \<Rightarrow> int \<Rightarrow> int \<Rightarrow> gen_state \<Rightarrow> error + gen_state" where
  "link_rooms cfg i j ci cj s =
     (case rooms_at (rooms s) i of
        Inl e \<Rightarrow> Inl e
      | Inr r1 \<Rightarrow>
     (case rooms_at (rooms s) j of
        Inl e \<Rightarrow> Inl e
      | Inr r2 \<Rightarrow>
     (case carve_corridor cfg r1 r2 (grid s, rng s) of
        Inl e \<Rightarrow> Inl e
      | Inr (g, t) \<Rightarrow>
          (let rs1 = (rooms s)[i := add_connection cj (rooms s ! i)];
               rs2 = rs1[j := add_connection ci (rs1 ! j)]
           in Inr (s\<lparr>rooms := rs2, grid := g, rng := t\<rparr>)))))"

function spanning_loop ::
  "runtime \<Rightarrow> DungeonConfig \<Rightarrow> nat list \<Rightarrow> nat list \<Rightarrow> gen_state \<Rightarrow> error + gen_state"
  where
  "spanning_loop rt cfg conn unconn s =
     (if unconn = [] then Inr s
      else
        (case find_best_pair (rooms s) (set_iter rt conn) (set_iter rt unconn) of
           Inl e \<Rightarrow> Inl e
         | Inr (best_dist, best_pair) \<Rightarrow>
        (case link_rooms cfg (fst best_pair) (snd best_pair)
                (int (fst best_pair)) (int (snd best_pair)) s of
           Inl e \<Rightarrow> Inl e
         | Inr s' \<Rightarrow>
             if snd best_pair \<in> set unconn
             then spanning_loop rt cfg (set_add (snd best_pair) conn)
                    (removeAll (snd best_pair) unconn) s'
             else Inl KeyError)))"
  by pat_completeness auto
termination
proof (relation "measure (\<lambda>(rt, cfg, conn, unconn, s). length unconn)")
  show "wf (measure (\<lambda>(rt, cfg, conn, unconn, s). length unconn))"
    by simp
next
  fix rt :: runtime and cfg :: DungeonConfig and conn unconn :: "nat list"
    and s :: gen_state and x2 :: "int option \<times> nat \<times> nat" and x1 :: "int option"
    and y :: "nat \<times> nat" and x2a :: gen_state
  assume "snd y \<in> set unconn"
  then have "length (removeAll (snd y) unconn) < length unconn"
    by (rule length_removeAll_less)
  then show "((rt, cfg, set_add (snd y) conn, removeAll (snd y) unconn, x2a),
              (rt, cfg, conn, unconn, s))
             \<in> measure (\<lambda>(rt, cfg, conn, unconn, s). length unconn)"
    by simp
qed

declare spanning_loop.simps [simp del]

text \<open>One extra edge: \<^verbatim>\<open>r1\<close> and \<^verbatim>\<open>r2\<close> are references into \<^verbatim>\<open>self.rooms\<close>, here indices.\<close>

definition extra_connection :: "DungeonConfig \<Rightarrow> gen_state \<Rightarrow> error + gen_state" where
  "extra_connection cfg s =
     (case choice [0..<length (rooms s)] (rng s) of
        Inl e \<Rightarrow> Inl e
      | Inr (i1, t1) \<Rightarrow>
     (case choice [0..<length (rooms s)] t1 of
        Inl e \<Rightarrow> Inl e
      | Inr (i2, t2) \<Rightarrow>
          (let r1 = rooms s ! i1; r2 = rooms s ! i2 in
           if room_id r1 \<noteq> room_id r2 \<and> room_id r2 \<notin> set (connections r1)
           then link_rooms cfg i1 i2 (room_id r1) (room_id r2) (s\<lparr>rng := t2\<rparr>)
           else Inr (s\<lparr>rng := t2\<rparr>))))"

definition connect_rooms :: "runtime \<Rightarrow> DungeonConfig \<Rightarrow> gen_state \<Rightarrow> error + gen_state"
  where
  "connect_rooms rt cfg s =
     (if length (rooms s) < 2 then Inr s
      else
        (case spanning_loop rt cfg [0] [1..<length (rooms s)] s of
           Inl e \<Rightarrow> Inl e
         | Inr s1 \<Rightarrow>
        (case randint 1 (int (length (rooms s1)) div 4) (rng s1) of
           Inl e \<Rightarrow> Inl e
         | Inr (extra_connections, t) \<Rightarrow>
             for_each (\<lambda>_. extra_connection cfg) [0..<nat extra_connections]
               (s1\<lparr>rng := t\<rparr>))))"

subsection \<open>Entrance and boss\<close>

text \<open>\<^verbatim>\<open>min(xs, key=f)\<close> and \<^verbatim>\<open>max(xs, key=f)\<close> as the index of the element they return: the
  scan keeps the first element whose key is not beaten later.\<close>

fun scan_best ::
  "(int \<Rightarrow> int \<Rightarrow> bool) \<Rightarrow> ('a \<Rightarrow> int) \<Rightarrow> 'a list \<Rightarrow> nat \<Rightarrow> nat \<Rightarrow> int \<Rightarrow> nat" where
  "scan_best better key [] i best best_key = best"
| "scan_best better key (r # rs) i best best_key =
     (if better (key r) best_key then scan_best better key rs (Suc i) i (key r)
      else scan_best better key rs (Suc i) best best_key)"

definition py_min_index :: "('a \<Rightarrow> int) \<Rightarrow> 'a list \<Rightarrow> error + nat" where
  "py_min_index key xs =
     (case xs of [] \<Rightarrow> Inl ValueError
      | r # rs \<Rightarrow> Inr (scan_best (\<lambda>a b. a < b) key rs 1 0 (key r)))"

definition py_max_index :: "('a \<Rightarrow> int) \<Rightarrow> 'a list \<Rightarrow> error + nat" where
  "py_max_index key xs =
     (case xs of [] \<Rightarrow> Inl ValueError
      | r # rs \<Rightarrow> Inr (scan_best (\<lambda>a b. a > b) key rs 1 0 (key r)))"

definition edge_distance :: "DungeonConfig \<Rightarrow> Room \<Rightarrow> int" where
  "edge_distance cfg r =
     min (min (room_x r) (room_y r))
         (min (width cfg - room_x r - room_width r) (height cfg - room_y r - room_height r))"

definition set_room_type :: "RoomType \<Rightarrow> Room \<Rightarrow> Room" where
  "set_room_type ty r = r\<lparr>room_type := ty\<rparr>"

definition place_special_rooms :: "DungeonConfig \<Rightarrow> gen_state \<Rightarrow> error + gen_state" where
  "place_special_rooms cfg s =
     (if rooms s = [] then Inr s
      else
        (case py_min_index (edge_distance cfg) (rooms s) of
           Inl e \<Rightarrow> Inl e
         | Inr ei \<Rightarrow>
             (let rs1 = (rooms s)[ei := set_room_type ENTRANCE (rooms s ! ei)];
                  entrance = rs1 ! ei
              in case py_max_index (room_distance_sq entrance) rs1 of
                   Inl e \<Rightarrow> Inl e
                 | Inr bi \<Rightarrow>
                     Inr (s\<lparr>rooms := rs1[bi := set_room_type BOSS (rs1 ! bi)]\<rparr>))))"

subsection \<open>Content\<close>

fun encounter_loop ::
  "DungeonConfig \<Rightarrow> Room \<Rightarrow> nat \<Rightarrow> tape \<Rightarrow> error + (encounter list \<times> tape)" where
  "encounter_loop cfg room 0 t = Inr ([], t)"
| "encounter_loop cfg room (Suc k) t =
     (case choice (monster_table cfg) t of
        Inl e \<Rightarrow> Inl e
      | Inr (monster, t1) \<Rightarrow>
     (case randint (room_x room + 1) (room_x room + room_width room - 2) t1 of
        Inl e \<Rightarrow> Inl e
      | Inr (px, t2) \<Rightarrow>
     (case randint (room_y room + 1) (room_y room + room_height room - 2) t2 of
        Inl e \<Rightarrow> Inl e
      | Inr (py, t3) \<Rightarrow>
     (case encounter_loop cfg room k t3 of
        Inl e \<Rightarrow> Inl e
      | Inr (rest, t4) \<Rightarrow>
          Inr (MonsterEnc (dict_get monster ''id'' (JStr ''generic_monster''))
                 (dict_get monster ''level'' (JInt 1)) px py # rest, t4)))))"

definition generate_encounters ::
  "DungeonConfig \<Rightarrow> Room \<Rightarrow> tape \<Rightarrow> error + (encounter list \<times> tape)" where
  "generate_encounters cfg room t =
     (if monster_table cfg = [] then Inr ([], t)
      else case randint 1 (max 1 ((room_width room * room_height room) div 20)) t of
             Inl e \<Rightarrow> Inl e
           | Inr (num_monsters, t1) \<Rightarrow> encounter_loop cfg room (nat num_monsters) t1)"

text \<open>A dictionary is false exactly when it is empty, and \<^verbatim>\<open>None\<close> is false.\<close>

definition generate_boss_encounter :: "DungeonConfig \<Rightarrow> encounter list" where
  "generate_boss_encounter cfg =
     (case boss_config cfg of
        None \<Rightarrow> []
      | Some bc \<Rightarrow>
          if bc \<noteq> [] then
            [BossEnc (dict_get bc ''id'' (JStr ''dungeon_boss''))
               (dict_get bc ''level'' (JInt 100))
               (dict_get bc ''mechanics'' (JList []))]
          else [])"

fun loot_loop ::
  "DungeonConfig \<Rightarrow> bool \<Rightarrow> nat \<Rightarrow> tape \<Rightarrow> error + (loot_item list \<times> tape)" where
  "loot_loop cfg boss 0 t = Inr ([], t)"
| "loot_loop cfg boss (Suc k) t =
     (case choice (loot_table cfg) t of
        Inl e \<Rightarrow> Inl e
      | Inr (item, t1) \<Rightarrow>
     (case dict_get item ''max_quantity'' (JInt 1) of
        JInt m \<Rightarrow>
          (case randint 1 m t1 of
             Inl e \<Rightarrow> Inl e
           | Inr (q, t2) \<Rightarrow>
          (case loot_loop cfg boss k t2 of
             Inl e \<Rightarrow> Inl e
           | Inr (rest, t3) \<Rightarrow>
               Inr (\<lparr>item_id = dict_get item ''id'' (JStr ''gold_coins''),
                     quantity = (if boss then q * 2 else q)\<rparr> # rest, t3)))
      | _ \<Rightarrow> Inl TypeError))"

text \<open>\<^verbatim>\<open>_generate_loot(room, bonus, boss)\<close>; the room is not used by the source.\<close>

definition generate_loot ::
  "DungeonConfig \<Rightarrow> bool \<Rightarrow> bool \<Rightarrow> tape \<Rightarrow> error + (loot_item list \<times> tape)" where
  "generate_loot cfg bonus boss t =
     (if loot_table cfg = [] then Inr ([], t)
      else case randint 1 3 t of
             Inl e \<Rightarrow> Inl e
           | Inr (n0, t1) \<Rightarrow>
               (let n1 = (if bonus then n0 + 2 else n0);
                    num_items = (if boss then n1 + 3 else n1)
                in loot_loop cfg boss (nat num_items) t1))"

definition generate_puzzle :: "tape \<Rightarrow> error + (puzzle_desc \<times> tape)" where
  "generate_puzzle t =
     (case randint 3 6 t of Inl e \<Rightarrow> Inl e | Inr (levers, t1) \<Rightarrow>
     (case randint 4 9 t1 of Inl e \<Rightarrow> Inl e | Inr (plates, t2) \<Rightarrow>
     (case randint 3 5 t2 of Inl e \<Rightarrow> Inl e | Inr (symbols, t3) \<Rightarrow>
     (case randint 4 8 t3 of Inl e \<Rightarrow> Inl e | Inr (torches, t4) \<Rightarrow>
     (case randint 2 4 t4 of Inl e \<Rightarrow> Inl e | Inr (blocks, t5) \<Rightarrow>
        choice [LeverSequence levers, PressurePlates plates, SymbolMatching symbols,
                TorchLighting torches, BlockPushing blocks] t5)))))"

text \<open>The role roll of the first loop of \<^verbatim>\<open>_populate_rooms\<close>.\<close>

definition assign_role ::
  "DungeonConfig \<Rightarrow> Room \<Rightarrow> tape \<Rightarrow> error + (Room \<times> tape)" where
  "assign_role cfg room t =
     (case random t of (roll, t1) \<Rightarrow>
        if roll < combat_room_chance cfg then
          (case generate_encounters cfg room t1 of
             Inl e \<Rightarrow> Inl e
           | Inr (es, t2) \<Rightarrow> Inr (room\<lparr>room_type := COMBAT, encounters := es\<rparr>, t2))
        else if roll < round_double (combat_room_chance cfg + puzzle_room_chance cfg) then
          (case generate_puzzle t1 of
             Inl e \<Rightarrow> Inl e
           | Inr (p, t2) \<Rightarrow> Inr (room\<lparr>room_type := PUZZLE, puzzle := Some p\<rparr>, t2))
        else if roll < round_double
                         (round_double (combat_room_chance cfg + puzzle_room_chance cfg)
                          + treasure_room_chance cfg) then
          (case generate_loot cfg True False t1 of
             Inl e \<Rightarrow> Inl e
           | Inr (l, t2) \<Rightarrow> Inr (room\<lparr>room_type := TREASURE, loot := l\<rparr>, t2))
        else Inr (room\<lparr>room_type := SAFE\<rparr>, t1))"

definition populate_room ::
  "DungeonConfig \<Rightarrow> Room \<Rightarrow> tape \<Rightarrow> error + (Room \<times> tape)" where
  "populate_room cfg room t =
     (if room_type room = ENTRANCE \<or> room_type room = BOSS then Inr (room, t)
      else
        (case assign_role cfg room t of
           Inl e \<Rightarrow> Inl e
         | Inr (room1, t1) \<Rightarrow>
             if room_type room1 \<noteq> TREASURE then
               (case random t1 of (p, t2) \<Rightarrow>
                  if p < round_double (3 / 10) then
                    (case generate_loot cfg False False t2 of
                       Inl e \<Rightarrow> Inl e
                     | Inr (l, t3) \<Rightarrow> Inr (room1\<lparr>loot := l\<rparr>, t3))
                  else Inr (room1, t2))
             else Inr (room1, t1)))"

definition populate_boss ::
  "DungeonConfig \<Rightarrow> Room \<Rightarrow> tape \<Rightarrow> error + (Room \<times> tape)" where
  "populate_boss cfg room t =
     (if room_type room = BOSS then
        (case generate_loot cfg False True t of
           Inl e \<Rightarrow> Inl e
         | Inr (l, t1) \<Rightarrow>
             Inr (room\<lparr>encounters := generate_boss_encounter cfg, loot := l\<rparr>, t1))
      else Inr (room, t))"

text \<open>A \<^verbatim>\<open>for room in self.rooms\<close> loop that changes each room in place.\<close>

fun for_rooms ::
  "(Room \<Rightarrow> tape \<Rightarrow> error + (Room \<times> tape)) \<Rightarrow> Room list \<Rightarrow> tape
   \<Rightarrow> error + (Room list \<times> tape)" where
  "for_rooms body [] t = Inr ([], t)"
| "for_rooms body (room # rest) t =
     (case body room t of
        Inl e \<Rightarrow> Inl e
      | Inr (room', t1) \<Rightarrow>
          (case for_rooms body rest t1 of
             Inl e \<Rightarrow> Inl e
           | Inr (rest', t2) \<Rightarrow> Inr (room' # rest', t2)))"

definition populate_rooms :: "DungeonConfig \<Rightarrow> gen_state \<Rightarrow> error + gen_state" where
  "populate_rooms cfg s =
     (case for_rooms (populate_room cfg) (rooms s) (rng s) of
        Inl e \<Rightarrow> Inl e
      | Inr (rs1, t1) \<Rightarrow>
          (case for_rooms (populate_boss cfg) rs1 t1 of
             Inl e \<Rightarrow> Inl e
           | Inr (rs2, t2) \<Rightarrow> Inr (s\<lparr>rooms := rs2, rng := t2\<rparr>)))"

subsection \<open>Traps and the secret room\<close>

definition grid_get :: "int \<Rightarrow> int \<Rightarrow> grid_t \<Rightarrow> error + TileType" where
  "grid_get x y g =
     (case py_index (length g) y of
        Inl e \<Rightarrow> Inl e
      | Inr j \<Rightarrow>
          (case py_index (length (g ! j)) x of
             Inl e \<Rightarrow> Inl e
           | Inr i \<Rightarrow> Inr (g ! j ! i)))"

definition collect_floor ::
  "grid_t \<Rightarrow> int \<Rightarrow> int \<Rightarrow> (int \<times> int) list \<Rightarrow> error + (int \<times> int) list" where
  "collect_floor g y x floor_tiles =
     (case grid_get x y g of
        Inl e \<Rightarrow> Inl e
      | Inr v \<Rightarrow> Inr (if v = FLOOR then floor_tiles @ [(x, y)] else floor_tiles))"

text \<open>\<^verbatim>\<open>int(q)\<close> truncates towards zero, and raises on an infinite \<open>q\<close>.\<close>

definition py_int :: "rat \<Rightarrow> int" where
  "py_int q = (if 0 \<le> q then \<lfloor>q\<rfloor> else \<lceil>q\<rceil>)"

definition add_traps :: "DungeonConfig \<Rightarrow> gen_state \<Rightarrow> error + gen_state" where
  "add_traps cfg s =
     (case for_each (\<lambda>y. for_each (collect_floor (grid s) y) (py_range 0 (width cfg)))
             (py_range 0 (height cfg)) [] of
        Inl e \<Rightarrow> Inl e
      | Inr floor_tiles \<Rightarrow>
          (let n = round_double (rat_of_nat (length floor_tiles));
               product = round_double (n * trap_density cfg)
           in if is_inf n \<or> is_inf product then Inl OverflowError
              else
                (let num_traps = py_int product in
                 case sample floor_tiles (min num_traps (int (length floor_tiles))) (rng s) of
                   Inl e \<Rightarrow> Inl e
                 | Inr (trap_tiles, t) \<Rightarrow>
                     (case for_each (\<lambda>(x, y). grid_set x y TRAP) trap_tiles (grid s) of
                        Inl e \<Rightarrow> Inl e
                      | Inr g \<Rightarrow> Inr (s\<lparr>grid := g, rng := t\<rparr>)))))"

definition secret_positions :: "Room \<Rightarrow> int \<Rightarrow> int \<Rightarrow> (int \<times> int) list" where
  "secret_positions base_room w h =
     [(room_x base_room - w - 1, room_y base_room),
      (room_x base_room + room_width base_room + 1, room_y base_room),
      (room_x base_room, room_y base_room - h - 1),
      (room_x base_room, room_y base_room + room_height base_room + 1)]"

fun first_fit ::
  "DungeonConfig \<Rightarrow> Room list \<Rightarrow> int \<Rightarrow> int \<Rightarrow> (int \<times> int) list \<Rightarrow> (int \<times> int) option"
  where
  "first_fit cfg rs w h [] = None"
| "first_fit cfg rs w h ((x, y) # rest) =
     (if x > 0 \<and> y > 0 \<and> x + w < width cfg \<and> y + h < height cfg \<and>
         \<not> check_room_overlap rs x y w h
      then Some (x, y)
      else first_fit cfg rs w h rest)"

definition place_secret ::
  "DungeonConfig \<Rightarrow> int \<Rightarrow> int \<Rightarrow> int \<Rightarrow> int \<Rightarrow> gen_state \<Rightarrow> error + gen_state" where
  "place_secret cfg x y w h s =
     (let secret = new_room (next_room_id s) SECRET x y w h in
      case carve_room secret (grid s) of
        Inl e \<Rightarrow> Inl e
      | Inr g \<Rightarrow>
          (case generate_loot cfg True False (rng s) of
             Inl e \<Rightarrow> Inl e
           | Inr (l, t) \<Rightarrow>
               Inr (s\<lparr>rooms := rooms s @ [secret\<lparr>loot := l\<rparr>], grid := g,
                      next_room_id := next_room_id s + 1, rng := t\<rparr>)))"

fun secret_loop :: "DungeonConfig \<Rightarrow> nat \<Rightarrow> gen_state \<Rightarrow> error + gen_state" where
  "secret_loop cfg 0 s = Inr s"
| "secret_loop cfg (Suc k) s =
     (case choice (rooms s) (rng s) of
        Inl e \<Rightarrow> Inl e
      | Inr (base_room, t1) \<Rightarrow>
     (case randint 3 6 t1 of
        Inl e \<Rightarrow> Inl e
      | Inr (w, t2) \<Rightarrow>
     (case randint 3 6 t2 of
        Inl e \<Rightarrow> Inl e
      | Inr (h, t3) \<Rightarrow>
          (case first_fit cfg (rooms s) w h (secret_positions base_room w h) of
             Some (x, y) \<Rightarrow> place_secret cfg x y w h (s\<lparr>rng := t3\<rparr>)
           | None \<Rightarrow> secret_loop cfg k (s\<lparr>rng := t3\<rparr>)))))"

definition add_secret_rooms :: "DungeonConfig \<Rightarrow> gen_state \<Rightarrow> error + gen_state" where
  "add_secret_rooms cfg s =
     (case random (rng s) of (p, t) \<Rightarrow>
        if p > secret_room_chance cfg then Inr (s\<lparr>rng := t\<rparr>)
        else secret_loop cfg 10 (s\<lparr>rng := t\<rparr>))"

subsection \<open>The generator\<close>

definition export :: "DungeonConfig \<Rightarrow> gen_state \<Rightarrow> dungeon" where
  "export cfg s =
     \<lparr>d_metadata =
        \<lparr>md_name = name cfg, md_theme = theme cfg, md_difficulty = difficulty cfg,
         md_seed = seed s, md_width = width cfg, md_height = height cfg\<rparr>,
      d_rooms = rooms s,
      d_grid = grid s,
      d_required_skills = required_skills cfg\<rparr>"

text \<open>\<^verbatim>\<open>__init__\<close>: \<^verbatim>\<open>seed or random.randint(0, 2**32)\<close> takes the second operand when the
  first is \<^verbatim>\<open>None\<close> or \<^verbatim>\<open>0\<close>.\<close>

definition DungeonGenerator_init :: "runtime \<Rightarrow> int option \<Rightarrow> error + gen_state" where
  "DungeonGenerator_init rt seed_arg =
     (case (case seed_arg of
              None \<Rightarrow> map_sum id fst (randint 0 (2 ^ 32) (ambient rt))
            | Some sd \<Rightarrow>
                if sd \<noteq> 0 then Inr sd
                else map_sum id fst (randint 0 (2 ^ 32) (ambient rt))) of
        Inl e \<Rightarrow> Inl e
      | Inr sd \<Rightarrow>
          Inr \<lparr>seed = sd, rooms = [], grid = [], next_room_id = 0, rng = prng rt sd\<rparr>)"

text \<open>The first four phases of \<^verbatim>\<open>generate\<close>: the state on which the trap pass starts.\<close>

definition generate_layout :: "runtime \<Rightarrow> DungeonConfig \<Rightarrow> gen_state \<Rightarrow> error + gen_state"
  where
  "generate_layout rt cfg s =
     (case generate_rooms_bsp cfg
             (s\<lparr>grid := replicate (nat (height cfg)) (replicate (nat (width cfg)) WALL)\<rparr>) of
        Inl e \<Rightarrow> Inl e
      | Inr s1 \<Rightarrow>
     (case connect_rooms rt cfg s1 of
        Inl e \<Rightarrow> Inl e
      | Inr s2 \<Rightarrow>
     (case place_special_rooms cfg s2 of
        Inl e \<Rightarrow> Inl e
      | Inr s3 \<Rightarrow> populate_rooms cfg s3)))"

definition generate :: "runtime \<Rightarrow> DungeonConfig \<Rightarrow> gen_state \<Rightarrow> error + dungeon" where
  "generate rt cfg s =
     (case generate_layout rt cfg s of
        Inl e \<Rightarrow> Inl e
      | Inr s4 \<Rightarrow>
     (case add_traps cfg s4 of
        Inl e \<Rightarrow> Inl e
      | Inr s5 \<Rightarrow>
     (case add_secret_rooms cfg s5 of
        Inl e \<Rightarrow> Inl e
      | Inr s6 \<Rightarrow> Inr (export cfg s6))))"

text \<open>\<^verbatim>\<open>generate_dungeon\<close> and \<^verbatim>\<open>main\<close> without their file handling: construct, then generate.\<close>

definition generate_dungeon ::
  "runtime \<Rightarrow> DungeonConfig \<Rightarrow> int option \<Rightarrow> error + dungeon" where
  "generate_dungeon rt cfg seed_arg =
     (case DungeonGenerator_init rt seed_arg of
        Inl e \<Rightarrow> Inl e
      | Inr s \<Rightarrow> generate rt cfg s)"

subsection \<open>Concrete configurations and runs\<close>

text \<open>A 12 by 12 grid with four rooms of 3 by 3 tiles; the probabilities are the defaults
  of \<^verbatim>\<open>DungeonConfig\<close>, the doubles that the literals 0.4, 0.15, 0.1, 0.05 and 0.1 denote;
  the monster table is the first entry of the one in \<^verbatim>\<open>main\<close>.\<close>

definition demo_config :: DungeonConfig where
  "demo_config =
     \<lparr>name = ''Generated Dungeon'', theme = ''cave'', difficulty = ''intermediate'',
      min_rooms = 4, max_rooms = 4, min_room_size = 3, max_room_size = 3,
      width = 12, height = 12,
      combat_room_chance = round_double (2 / 5), puzzle_room_chance = round_double (3 / 20),
      treasure_room_chance = round_double (1 / 10),
      secret_room_chance = round_double (1 / 20), trap_density = round_double (1 / 10),
      required_skills = [],
      monster_table = [[(''id'', JStr ''cave_spider''), (''level'', JInt 20)]],
      loot_table = [],
      boss_config = None\<rparr>"

text \<open>The readings of \<open>demo_tape\<close> under \<open>demo_config\<close>: four rooms are asked for; they are
  placed at (2,2), (7,2), (2,7) and (7,7); the tree and the one extra edge (0,3) are carved
  row first; room 1 rolls combat with one monster, room 2 rolls a puzzle, neither gets
  loot; four traps are sampled; the secret-room roll is 0.5 and fails.\<close>

definition demo_tape :: tape where
  "demo_tape =
     [0,  0, 0, 0, 0,  0, 0, 5, 0,  0, 0, 0, 5,  0, 0, 5, 5,
      0, 0, 0,  0,  0, 3, 0,
      0, 0, 0, 0, 0, 4503599627370496,
      4503599627370496, 0, 0, 0, 0, 0, 0, 4503599627370496,
      0, 0, 0, 0,
      4503599627370496]"

definition demo_runtime :: runtime where
  "demo_runtime = \<lparr>prng = (\<lambda>_. demo_tape), ambient = [7], set_slot = (\<lambda>xs x. x)\<rparr>"

definition demo_boss_config :: pydict where
  "demo_boss_config =
     [(''id'', JStr ''cave_horror''), (''level'', JInt 80),
      (''mechanics'', JList [''aoe_attack'', ''summon_adds''])]"

text \<open>What the generator returns on that run, and the grid on which its trap pass
  started. The boss room's encounter list is left open: it depends on \<^verbatim>\<open>boss_config\<close>.\<close>

definition demo_rooms :: "encounter list \<Rightarrow> Room list" where
  "demo_rooms boss_encounters =
     [(new_room 0 ENTRANCE 2 2 3 3)\<lparr>connections := [1, 2, 3]\<rparr>,
      (new_room 1 COMBAT 7 2 3 3)
        \<lparr>connections := [0, 3],
         encounters := [MonsterEnc (JStr ''cave_spider'') (JInt 20) 8 3]\<rparr>,
      (new_room 2 PUZZLE 2 7 3 3)\<lparr>connections := [0], puzzle := Some (LeverSequence 3)\<rparr>,
      (new_room 3 BOSS 7 7 3 3)\<lparr>connections := [1, 0], encounters := boss_encounters\<rparr>]"

definition demo_layout_grid :: grid_t where
  "demo_layout_grid =
     [replicate 12 WALL,
      replicate 12 WALL,
      [WALL, WALL, FLOOR, FLOOR, FLOOR, WALL, WALL, FLOOR, FLOOR, FLOOR, WALL, WALL],
      [WALL, WALL, FLOOR, FLOOR, FLOOR, FLOOR, FLOOR, FLOOR, FLOOR, FLOOR, WALL, WALL],
      [WALL, WALL, FLOOR, FLOOR, FLOOR, WALL, WALL, FLOOR, FLOOR, FLOOR, WALL, WALL],
      [WALL, WALL, WALL, FLOOR, WALL, WALL, WALL, WALL, FLOOR, WALL, WALL, WALL],
      [WALL, WALL, WALL, FLOOR, WALL, WALL, WALL, WALL, FLOOR, WALL, WALL, WALL],
      [WALL, WALL, FLOOR, FLOOR, FLOOR, WALL, WALL, FLOOR, FLOOR, FLOOR, WALL, WALL],
      [WALL, WALL, FLOOR, FLOOR, FLOOR, WALL, WALL, FLOOR, FLOOR, FLOOR, WALL, WALL],
      [WALL, WALL, FLOOR, FLOOR, FLOOR, WALL, WALL, FLOOR, FLOOR, FLOOR, WALL, WALL],
      replicate 12 WALL,
      replicate 12 WALL]"

definition demo_layout :: gen_state where
  "demo_layout =
     \<lparr>seed = 42, rooms = demo_rooms [], grid = demo_layout_grid, next_room_id = 4,
      rng = [0, 0, 0, 0, 4503599627370496]\<rparr>"

definition demo_dungeon :: "encounter list \<Rightarrow> dungeon" where
  "demo_dungeon boss_encounters =
     \<lparr>d_metadata =
        \<lparr>md_name = ''Generated Dungeon'', md_theme = ''cave'',
         md_difficulty = ''intermediate'', md_seed = 42, md_width = 12, md_height = 12\<rparr>,
      d_rooms = demo_rooms boss_encounters,
      d_grid = demo_layout_grid
        [2 := [WALL, WALL, TRAP, TRAP, TRAP, WALL, WALL, TRAP, FLOOR, FLOOR, WALL, WALL]],
      d_required_skills = []\<rparr>"

text \<open>One room and, on a zero tape, no room at all.\<close>

definition one_room_config :: DungeonConfig where
  "one_room_config = demo_config\<lparr>min_rooms := 1, max_rooms := 1\<rparr>"

definition one_room_runtime :: runtime where
  "one_room_runtime =
     demo_runtime\<lparr>prng := (\<lambda>_. [0, 0, 0, 0, 0, 4503599627370496, 4503599627370496])\<rparr>"

definition one_room_dungeon :: dungeon where
  "one_room_dungeon =
     \<lparr>d_metadata =
        \<lparr>md_name = ''Generated Dungeon'', md_theme = ''cave'',
         md_difficulty = ''intermediate'', md_seed = 42, md_width = 12, md_height = 12\<rparr>,
      d_rooms = [new_room 0 BOSS 2 2 3 3],
      d_grid =
        replicate 2 (replicate 12 WALL) @
        replicate 3 (replicate 2 WALL @ replicate 3 FLOOR @ replicate 7 WALL) @
        replicate 7 (replicate 12 WALL),
      d_required_skills = []\<rparr>"

definition two_room_config :: DungeonConfig where
  "two_room_config = demo_config\<lparr>min_rooms := 2, max_rooms := 2\<rparr>"

definition no_room_config :: DungeonConfig where
  "no_room_config = demo_config\<lparr>min_rooms := 0, max_rooms := 0\<rparr>"

definition zero_runtime :: runtime where
  "zero_runtime = demo_runtime\<lparr>prng := (\<lambda>_. [0, 0])\<rparr>"

text \<open>A 5 by 2 grid with rooms of size -4: no room is carved, the four centres are the
  corners of the grid, and the corridors between them cover it. The readings of the tape:
  four rooms at (2,2), (6,2), (2,3) and (6,3); the tree (0,2), (0,1), (1,3) and the extra
  edge (2,3), carved row first; rooms 1 and 2 roll combat, with an empty monster table and
  no loot; the draws of the trap sample; the secret-room roll is 0.5 and fails. The trap
  density is the double that the literal 0.7 denotes.\<close>

definition corner_config :: DungeonConfig where
  "corner_config =
     demo_config\<lparr>min_room_size := - 4, max_room_size := - 4, width := 5, height := 2,
                 trap_density := round_double (7 / 10), monster_table := []\<rparr>"

definition corner_runtime :: runtime where
  "corner_runtime =
     demo_runtime\<lparr>prng := (\<lambda>_.
       [0,  0, 0, 0, 0,  0, 0, 4, 0,  0, 0, 0, 1,  0, 0, 4, 1,
        0, 0, 0,  0,  2, 3, 0,
        0, 0,  0, 0,
        0, 0, 0, 0, 0, 0, 0,
        4503599627370496])\<rparr>"

subsection \<open>Observations on a run\<close>

text \<open>The generator state on which the trap pass starts.\<close>

definition layout_state :: "runtime \<Rightarrow> DungeonConfig \<Rightarrow> int option \<Rightarrow> error + gen_state"
  where
  "layout_state rt cfg seed_arg =
     (case DungeonGenerator_init rt seed_arg of
        Inl e \<Rightarrow> Inl e
      | Inr s \<Rightarrow> generate_layout rt cfg s)"

text \<open>The state after placement alone, and the grid with its room list before the trap pass.\<close>

definition placement_state :: "runtime \<Rightarrow> DungeonConfig \<Rightarrow> int option \<Rightarrow> error + gen_state"
  where
  "placement_state rt cfg seed_arg =
     (case DungeonGenerator_init rt seed_arg of
        Inl e \<Rightarrow> Inl e
      | Inr s \<Rightarrow>
          generate_rooms_bsp cfg
            (s\<lparr>grid := replicate (nat (height cfg)) (replicate (nat (width cfg)) WALL)\<rparr>))"

definition rooms_placed :: "runtime \<Rightarrow> DungeonConfig \<Rightarrow> int option \<Rightarrow> error + nat" where
  "rooms_placed rt cfg seed_arg =
     (case placement_state rt cfg seed_arg of Inl e \<Rightarrow> Inl e | Inr s \<Rightarrow> Inr (length (rooms s)))"

definition recorded_seed :: "error + dungeon \<Rightarrow> error + int" where
  "recorded_seed r = (case r of Inl e \<Rightarrow> Inl e | Inr d \<Rightarrow> Inr (md_seed (d_metadata d)))"

subsection \<open>Properties of rooms\<close>

definition rect_tiles :: "int \<Rightarrow> int \<Rightarrow> int \<Rightarrow> int \<Rightarrow> (int \<times> int) set" where
  "rect_tiles x y w h = {(a, b). x \<le> a \<and> a < x + w \<and> y \<le> b \<and> b < y + h}"

definition room_tiles :: "Room \<Rightarrow> (int \<times> int) set" where
  "room_tiles r = rect_tiles (room_x r) (room_y r) (room_width r) (room_height r)"

text \<open>The room's rectangle expanded by two tiles on all four sides.\<close>

definition padded_tiles :: "Room \<Rightarrow> (int \<times> int) set" where
  "padded_tiles r =
     rect_tiles (room_x r - 2) (room_y r - 2) (room_width r + 4) (room_height r + 4)"

text \<open>The recorded adjacency: an edge from a room's identity to each entry of its
  \<^verbatim>\<open>connections\<close>.\<close>

definition edge_list :: "Room list \<Rightarrow> (int \<times> int) list" where
  "edge_list rs = concat (map (\<lambda>r. map (Pair (room_id r)) (connections r)) rs)"

definition reachable :: "Room list \<Rightarrow> int \<Rightarrow> int \<Rightarrow> bool" where
  "reachable rs a b = ((a, b) \<in> (set (edge_list rs))\<^sup>*)"

definition count_role :: "RoomType \<Rightarrow> Room list \<Rightarrow> nat" where
  "count_role ty rs = length (filter (\<lambda>r. room_type r = ty) rs)"

definition boss_rooms :: "Room list \<Rightarrow> Room list" where
  "boss_rooms rs = filter (\<lambda>r. room_type r = BOSS) rs"

text \<open>The interior of a room is its rectangle without the outermost ring of tiles.\<close>

fun in_interior :: "Room \<Rightarrow> encounter \<Rightarrow> bool" where
  "in_interior r (MonsterEnc m l px py) =
     (room_x r + 1 \<le> px \<and> px \<le> room_x r + room_width r - 2 \<and>
      room_y r + 1 \<le> py \<and> py \<le> room_y r + room_height r - 2)"
| "in_interior r (BossEnc m l ms) = True"

definition encounters_inside :: "Room \<Rightarrow> bool" where
  "encounters_inside r = list_all (in_interior r) (encounters r)"

subsection \<open>Properties of grids\<close>

definition tiles_in :: "TileType set \<Rightarrow> grid_t \<Rightarrow> bool" where
  "tiles_in A g = (set (concat g) \<subseteq> A)"

definition count_tiles :: "TileType \<Rightarrow> grid_t \<Rightarrow> nat" where
  "count_tiles t g = count_list (concat g) t"

text \<open>A property of grids that writing a floor tile preserves.\<close>

definition floor_closed :: "(grid_t \<Rightarrow> bool) \<Rightarrow> bool" where
  "floor_closed P = (\<forall>x y a b. P a \<longrightarrow> grid_set x y FLOOR a = Inr b \<longrightarrow> P b)"

text \<open>The left margin: the tile at the origin is wall, and every room starts to the right
  of column 0 and has a non-negative width, so that its centre is to the right of column 0
  as well.\<close>

definition left_margin :: "gen_state \<Rightarrow> bool" where
  "left_margin s =
     (grid_get 0 0 (grid s) = Inr WALL \<and>
      (\<forall>r \<in> set (rooms s). 0 < room_x r \<and> 0 \<le> room_width r))"

subsection \<open>Invariants of the phases\<close>

text \<open>The test of \<^verbatim>\<open>_check_room_overlap\<close> against one room.\<close>

definition overlap_cond :: "Room \<Rightarrow> int \<Rightarrow> int \<Rightarrow> int \<Rightarrow> int \<Rightarrow> bool" where
  "overlap_cond room x y w h =
     (x < room_x room + room_width room + 2 \<and> x + w + 2 > room_x room \<and>
      y < room_y room + room_height room + 2 \<and> y + h + 2 > room_y room)"

definition rooms_apart :: "Room list \<Rightarrow> bool" where
  "rooms_apart rs =
     (\<forall>i < length rs. \<forall>j < length rs.
        i \<noteq> j \<longrightarrow> room_tiles (rs ! i) \<inter> padded_tiles (rs ! j) = {})"

definition room_geom :: "Room \<Rightarrow> int \<times> int \<times> int \<times> int \<times> int" where
  "room_geom r = (room_id r, room_x r, room_y r, room_width r, room_height r)"

definition without_connections :: "Room \<Rightarrow> Room" where
  "without_connections r = r\<lparr>connections := []\<rparr>"

definition without_type :: "Room \<Rightarrow> Room" where
  "without_type r = r\<lparr>room_type := CORRIDOR\<rparr>"

text \<open>The room list as placement leaves it: the room at index \<open>i\<close> is a new room with
  identity \<open>i\<close>, and no side is shorter than the configured minimum.\<close>

definition fresh_rooms :: "DungeonConfig \<Rightarrow> Room list \<Rightarrow> bool" where
  "fresh_rooms cfg rs =
     (\<forall>i < length rs.
        rs ! i = new_room (int i) CORRIDOR (room_x (rs ! i)) (room_y (rs ! i))
                   (room_width (rs ! i)) (room_height (rs ! i)) \<and>
        min_room_size cfg \<le> room_width (rs ! i) \<and>
        min_room_size cfg \<le> room_height (rs ! i))"

text \<open>What \<^verbatim>\<open>_populate_rooms\<close> does to one room.\<close>

definition populated :: "DungeonConfig \<Rightarrow> Room \<Rightarrow> Room \<Rightarrow> bool" where
  "populated cfg r r' =
     (room_geom r' = room_geom r \<and> connections r' = connections r \<and>
      (room_type r' = ENTRANCE \<longleftrightarrow> room_type r = ENTRANCE) \<and>
      (room_type r' = BOSS \<longleftrightarrow> room_type r = BOSS) \<and>
      (encounters r = [] \<longrightarrow> encounters_inside r') \<and>
      (room_type r' = BOSS \<longrightarrow> encounters r' = generate_boss_encounter cfg))"

text \<open>Between two room lists: the same identities, and no recorded edge lost.\<close>

definition connections_grow :: "Room list \<Rightarrow> Room list \<Rightarrow> bool" where
  "connections_grow rs rs' =
     (length rs' = length rs \<and>
      (\<forall>k < length rs. room_id (rs' ! k) = room_id (rs ! k) \<and>
                        set (connections (rs ! k)) \<subseteq> set (connections (rs' ! k))))"

text \<open>Every room is linked with room 0, in both directions.\<close>

definition linked_to_first :: "Room list \<Rightarrow> bool" where
  "linked_to_first rs =
     (\<forall>k < length rs. reachable rs 0 (int k) \<and> reachable rs (int k) 0)"

definition indexed_ids :: "Room list \<Rightarrow> bool" where
  "indexed_ids rs = (\<forall>k < length rs. room_id (rs ! k) = int k)"

section \<open>Verification\<close>

subsection \<open>Rounding to a double is monotone\<close>

lemma bit_length_upper: "0 \<le> n \<Longrightarrow> n < 2 ^ bit_length n"
proof (induction n rule: bit_length.induct)
  case (1 n)
  show ?case
  proof (cases "n \<le> 0")
    case True
    then have "n = 0" using "1.prems" by simp
    then show ?thesis by (simp add: bit_length.simps)
  next
    case False
    then have "n div 2 < 2 ^ bit_length (n div 2)" using "1.IH" by simp
    then have "n < 2 * 2 ^ bit_length (n div 2)" by linarith
    then show ?thesis using False by (simp add: bit_length.simps[of n])
  qed
qed

lemma bit_length_lower: "0 < n \<Longrightarrow> 2 ^ bit_length n \<le> 2 * n"
proof (induction n rule: bit_length.induct)
  case (1 n)
  have pos: "\<not> n \<le> 0" using "1.prems" by simp
  show ?case
  proof (cases "n div 2 = 0")
    case True
    then have "bit_length (n div 2) = 0" by (simp add: bit_length.simps)
    then show ?thesis using pos by (simp add: bit_length.simps[of n])
  next
    case False
    then have "0 < n div 2" using pos by (simp add: pos_imp_zdiv_pos_iff)
    then have "2 ^ bit_length (n div 2) \<le> 2 * (n div 2)" using "1.IH"[OF pos] by simp
    also have "\<dots> \<le> n" by linarith
    finally show ?thesis using pos by (simp add: bit_length.simps[of n])
  qed
qed

lemma floor_log2_le:
  assumes "0 < q"
  shows "power_int 2 (floor_log2 q) \<le> q"
proof (cases "1 \<le> q")
  case True
  define n where "n = \<lfloor>q\<rfloor>"
  have n: "0 < n" using True by (simp add: n_def)
  have b: "0 < bit_length n" using bit_length_upper[of n] n by (cases "bit_length n") auto
  have "(2::int) ^ bit_length n \<le> 2 * n" using bit_length_lower[OF n] .
  then have "2 * (2::int) ^ (bit_length n - 1) \<le> 2 * n"
    using b by (cases "bit_length n") auto
  then have "(2::int) ^ (bit_length n - 1) \<le> n" by simp
  then have "rat_of_int (2 ^ (bit_length n - 1)) \<le> rat_of_int n" by (simp only: of_int_le_iff)
  also have "\<dots> \<le> q" by (simp add: n_def)
  finally have "(2::rat) ^ (bit_length n - 1) \<le> q" by simp
  moreover have "floor_log2 q = int (bit_length n - 1)"
    using True b by (simp add: floor_log2_def n_def)
  ultimately show ?thesis by simp
next
  case False
  define c where "c = \<lceil>1 / q\<rceil>"
  define m where "m = bit_length (c - 1)"
  have "1 / q \<le> rat_of_int c" by (simp add: c_def)
  moreover have "c - 1 < 2 ^ m"
  proof -
    have "1 < 1 / q" using False assms by simp
    then have "1 < c" unfolding c_def by (simp add: less_ceiling_iff)
    then show ?thesis using bit_length_upper[of "c - 1"] by (simp add: m_def)
  qed
  then have "c \<le> 2 ^ m" by simp
  then have "rat_of_int c \<le> rat_of_int (2 ^ m)" by (simp only: of_int_le_iff)
  moreover have "rat_of_int (2 ^ m) = 2 ^ m" by simp
  ultimately have "1 / q \<le> 2 ^ m" by linarith
  then have "1 \<le> 2 ^ m * q" using assms by (simp add: field_simps)
  then have "1 / 2 ^ m \<le> q" by (simp add: field_simps)
  moreover have "floor_log2 q = - int m" using False by (simp add: floor_log2_def m_def c_def)
  ultimately show ?thesis by (simp add: power_int_minus_divide)
qed

lemma floor_log2_gt:
  assumes "0 < q"
  shows "q < power_int 2 (floor_log2 q + 1)"
proof (cases "1 \<le> q")
  case True
  define n where "n = \<lfloor>q\<rfloor>"
  have n: "0 < n" using True by (simp add: n_def)
  have b: "0 < bit_length n" using bit_length_upper[of n] n by (cases "bit_length n") auto
  have "n + 1 \<le> 2 ^ bit_length n" using bit_length_upper[of n] n by simp
  then have "rat_of_int (n + 1) \<le> rat_of_int (2 ^ bit_length n)" by (simp only: of_int_le_iff)
  moreover have "q < rat_of_int (n + 1)" unfolding n_def by linarith
  ultimately have "q < 2 ^ bit_length n" by simp
  moreover have "floor_log2 q + 1 = int (bit_length n)"
    using True by (simp add: floor_log2_def n_def)
  ultimately show ?thesis by simp
next
  case False
  define c where "c = \<lceil>1 / q\<rceil>"
  define m where "m = bit_length (c - 1)"
  have c1: "0 < c - 1"
  proof -
    have "1 < 1 / q" using False assms by simp
    then have "1 < c" unfolding c_def by (simp add: less_ceiling_iff)
    then show ?thesis by simp
  qed
  have "(2::int) ^ m \<le> 2 * (c - 1)" using bit_length_lower[OF c1] by (simp add: m_def)
  then have "rat_of_int (2 ^ m) \<le> rat_of_int (2 * (c - 1))" by (simp only: of_int_le_iff)
  moreover have "rat_of_int (c - 1) < 1 / q" unfolding c_def by linarith
  ultimately have "2 ^ m < 2 * (1 / q)" by simp
  then have "2 ^ m * q < 2" using assms by (simp add: field_simps)
  then have "q < 2 / 2 ^ m" by (simp add: field_simps)
  moreover have "floor_log2 q = - int m" using False by (simp add: floor_log2_def m_def c_def)
  moreover have "power_int (2::rat) (- int m + 1) = 2 / 2 ^ m"
    using power_int_diff[of "2::rat" 1 "int m"] by simp
  ultimately show ?thesis by simp
qed

lemma floor_log2_mono:
  assumes "0 < q1" "q1 \<le> q2"
  shows "floor_log2 q1 \<le> floor_log2 q2"
proof (rule ccontr)
  assume "\<not> floor_log2 q1 \<le> floor_log2 q2"
  then have "floor_log2 q2 + 1 \<le> floor_log2 q1" by simp
  then have "power_int (2::rat) (floor_log2 q2 + 1) \<le> power_int 2 (floor_log2 q1)"
    by (rule power_int_increasing) simp
  moreover have "q2 < power_int 2 (floor_log2 q2 + 1)" using floor_log2_gt[of q2] assms by simp
  moreover have "power_int 2 (floor_log2 q1) \<le> q1" using floor_log2_le[OF assms(1)] .
  ultimately show False using assms(2) by linarith
qed

lemma round_half_even_cases:
  "round_half_even x = \<lfloor>x\<rfloor> \<or> round_half_even x = \<lfloor>x\<rfloor> + 1"
  by (simp add: round_half_even_def Let_def)

lemma round_half_even_ge: "rat_of_int n \<le> x \<Longrightarrow> n \<le> round_half_even x"
  using round_half_even_cases[of x] le_floor_iff[of n x] by linarith

lemma round_half_even_le:
  assumes "x \<le> rat_of_int n"
  shows "round_half_even x \<le> n"
proof (cases "\<lfloor>x\<rfloor> < n")
  case True
  then show ?thesis using round_half_even_cases[of x] by linarith
next
  case False
  have "\<lfloor>x\<rfloor> \<le> n" using assms by (simp add: floor_le_iff)
  then have "\<lfloor>x\<rfloor> = n" using False by simp
  then have "x = rat_of_int n" using assms of_int_floor_le[of x] by linarith
  then show ?thesis by (simp add: round_half_even_def)
qed

lemma round_half_even_mono:
  assumes "x \<le> y"
  shows "round_half_even x \<le> round_half_even y"
proof (cases "\<lfloor>x\<rfloor> < \<lfloor>y\<rfloor>")
  case True
  have "round_half_even x \<le> \<lfloor>x\<rfloor> + 1" using round_half_even_cases[of x] by linarith
  moreover have "\<lfloor>y\<rfloor> \<le> round_half_even y" using round_half_even_cases[of y] by linarith
  ultimately show ?thesis using True by linarith
next
  case False
  have "\<lfloor>x\<rfloor> \<le> \<lfloor>y\<rfloor>" using assms by (rule floor_mono)
  then have e: "\<lfloor>y\<rfloor> = \<lfloor>x\<rfloor>" using False by simp
  have "x - rat_of_int \<lfloor>x\<rfloor> \<le> y - rat_of_int \<lfloor>x\<rfloor>" using assms by simp
  then show ?thesis
    unfolding round_half_even_def Let_def e by (auto split: if_splits)
qed

lemma round_double_pos:
  "0 < q \<Longrightarrow>
   round_double q =
     rat_of_int (round_half_even (q / power_int 2 (max (floor_log2 q - 52) (- 1074))))
       * power_int 2 (max (floor_log2 q - 52) (- 1074))"
  by (simp add: round_double_def Let_def)

lemma round_double_nonneg: "0 \<le> q \<Longrightarrow> 0 \<le> round_double q"
proof (cases "q = 0")
  case True
  then show ?thesis by (simp add: round_double_def)
next
  case False
  assume "0 \<le> q"
  with False have q: "0 < q" by simp
  have "0 \<le> q / power_int 2 (max (floor_log2 q - 52) (- 1074))" using q by simp
  then have "0 \<le> round_half_even (q / power_int 2 (max (floor_log2 q - 52) (- 1074)))"
    using round_half_even_ge[of 0] by simp
  then show ?thesis unfolding round_double_pos[OF q] by simp
qed

lemma round_double_mono_pos:
  assumes "0 < q1" "q1 \<le> q2"
  shows "round_double q1 \<le> round_double q2"
proof -
  define e1 where "e1 = max (floor_log2 q1 - 52) (- 1074)"
  define e2 where "e2 = max (floor_log2 q2 - 52) (- 1074)"
  have q2: "0 < q2" using assms by simp
  have r1: "round_double q1 = rat_of_int (round_half_even (q1 / power_int 2 e1)) * power_int 2 e1"
    unfolding e1_def by (rule round_double_pos[OF assms(1)])
  have r2: "round_double q2 = rat_of_int (round_half_even (q2 / power_int 2 e2)) * power_int 2 e2"
    unfolding e2_def by (rule round_double_pos[OF q2])
  have le: "e1 \<le> e2" using floor_log2_mono[OF assms] by (simp add: e1_def e2_def)
  have p1: "0 < power_int (2::rat) e1" and p2: "0 < power_int (2::rat) e2" by simp_all
  show ?thesis
  proof (cases "e1 = e2")
    case True
    have "q1 / power_int 2 e2 \<le> q2 / power_int 2 e2"
      using assms(2) p2 by (simp add: divide_right_mono)
    then have "round_half_even (q1 / power_int 2 e2) \<le> round_half_even (q2 / power_int 2 e2)"
      by (rule round_half_even_mono)
    then have "rat_of_int (round_half_even (q1 / power_int 2 e2))
        \<le> rat_of_int (round_half_even (q2 / power_int 2 e2))" by (simp only: of_int_le_iff)
    then show ?thesis unfolding r1 r2 True using p2 by (simp add: mult_right_mono)
  next
    case False
    with le have lt: "e1 < e2" by simp
    have e2: "e2 = floor_log2 q2 - 52" using lt by (simp add: e1_def e2_def max_def split: if_splits)
    have f1: "floor_log2 q1 - 52 \<le> e1" by (simp add: e1_def)
    have "power_int 2 (e2 + 52) \<le> q2" using floor_log2_le[OF q2] by (simp add: e2)
    then have "power_int 2 52 * power_int 2 e2 \<le> q2"
      by (simp add: power_int_add mult.commute)
    then have "rat_of_int (2 ^ 52) \<le> q2 / power_int 2 e2"
      using p2 by (simp add: pos_le_divide_eq)
    then have "2 ^ 52 \<le> round_half_even (q2 / power_int 2 e2)" by (rule round_half_even_ge)
    then have "rat_of_int (2 ^ 52) \<le> rat_of_int (round_half_even (q2 / power_int 2 e2))"
      by (simp only: of_int_le_iff)
    then have "rat_of_int (2 ^ 52) * power_int 2 e2 \<le> round_double q2"
      unfolding r2 using p2 by (simp add: mult_right_mono)
    then have lo: "power_int 2 (e2 + 52) \<le> round_double q2"
      by (simp add: power_int_add mult.commute)
    have "q1 < power_int 2 (floor_log2 q1 + 1)" using floor_log2_gt[OF assms(1)] .
    also have "\<dots> \<le> power_int 2 (e1 + 53)"
      by (rule power_int_increasing) (use f1 in simp_all)
    finally have "q1 \<le> power_int 2 53 * power_int 2 e1"
      by (simp add: power_int_add mult.commute)
    then have "q1 / power_int 2 e1 \<le> rat_of_int (2 ^ 53)"
      using p1 by (simp add: pos_divide_le_eq)
    then have "round_half_even (q1 / power_int 2 e1) \<le> 2 ^ 53" by (rule round_half_even_le)
    then have "rat_of_int (round_half_even (q1 / power_int 2 e1)) \<le> rat_of_int (2 ^ 53)"
      by (simp only: of_int_le_iff)
    then have "round_double q1 \<le> rat_of_int (2 ^ 53) * power_int 2 e1"
      unfolding r1 using p1 by (simp add: mult_right_mono)
    then have "round_double q1 \<le> power_int 2 (e1 + 53)"
      by (simp add: power_int_add mult.commute)
    also have "\<dots> \<le> power_int 2 (e2 + 52)"
      by (rule power_int_increasing) (use lt in simp_all)
    finally show ?thesis using lo by simp
  qed
qed

lemma round_double_mono:
  assumes "0 \<le> q1" "q1 \<le> q2"
  shows "round_double q1 \<le> round_double q2"
proof (cases "q1 = 0")
  case True
  have "0 \<le> round_double q2" using assms by (intro round_double_nonneg) simp
  then show ?thesis using True by (simp add: round_double_def)
next
  case False
  then have "0 < q1" using assms(1) by simp
  then show ?thesis using assms(2) by (rule round_double_mono_pos)
qed

lemma round_double_zero [simp]: "round_double 0 = 0"
  by (simp add: round_double_def)

subsection \<open>The error of rounding to a double\<close>

lemma floor_log2_ge:
  assumes "0 < q" "power_int 2 k \<le> q"
  shows "k \<le> floor_log2 q"
proof (rule ccontr)
  assume "\<not> k \<le> floor_log2 q"
  then have "floor_log2 q + 1 \<le> k" by simp
  then have "power_int (2::rat) (floor_log2 q + 1) \<le> power_int 2 k"
    by (rule power_int_increasing) simp
  then show False using floor_log2_gt[OF assms(1)] assms(2) by linarith
qed

lemma floor_log2_less:
  assumes "0 < q" "q < power_int 2 k"
  shows "floor_log2 q < k"
proof (rule ccontr)
  assume "\<not> floor_log2 q < k"
  then have "k \<le> floor_log2 q" by simp
  then have "power_int (2::rat) k \<le> power_int 2 (floor_log2 q)"
    by (rule power_int_increasing) simp
  then show False using floor_log2_le[OF assms(1)] assms(2) by linarith
qed

lemma round_half_even_of_int [simp]: "round_half_even (rat_of_int k) = k"
  by (simp add: round_half_even_def)

lemma round_half_even_upper: "rat_of_int (round_half_even x) \<le> x + 1 / 2"
proof (cases "x - rat_of_int \<lfloor>x\<rfloor> < 1 / 2")
  case True
  then have "round_half_even x = \<lfloor>x\<rfloor>" by (simp add: round_half_even_def Let_def)
  moreover have "rat_of_int \<lfloor>x\<rfloor> \<le> x" by (rule of_int_floor_le)
  ultimately show ?thesis by linarith
next
  case False
  have "round_half_even x \<le> \<lfloor>x\<rfloor> + 1" using round_half_even_cases[of x] by linarith
  then have "rat_of_int (round_half_even x) \<le> rat_of_int (\<lfloor>x\<rfloor> + 1)"
    by (simp only: of_int_le_iff)
  then show ?thesis using False by (simp only: of_int_add of_int_1)
qed

text \<open>A count below \<open>2^53\<close> is a double.\<close>

lemma round_double_of_nat:
  assumes "n < 2 ^ 53"
  shows "round_double (rat_of_nat n) = rat_of_nat n"
proof (cases "n = 0")
  case True
  then show ?thesis by simp
next
  case False
  define q where "q = rat_of_nat n"
  have q: "0 < q" "1 \<le> q" using False by (simp_all add: q_def)
  have "power_int 2 0 \<le> q" using q(2) by simp
  then have lo: "0 \<le> floor_log2 q" by (rule floor_log2_ge[OF q(1)])
  have "rat_of_nat n < rat_of_nat (2 ^ 53)" using assms by (simp only: of_nat_less_iff)
  then have "q < power_int 2 53" by (simp add: q_def)
  then have hi: "floor_log2 q < 53" by (rule floor_log2_less[OF q(1)])
  define k where "k = nat (52 - floor_log2 q)"
  have e: "max (floor_log2 q - 52) (- 1074) = - int k" using lo hi by (simp add: k_def)
  have p: "power_int (2::rat) (- int k) = 1 / 2 ^ k" by (simp add: power_int_minus_divide)
  have "q / power_int 2 (- int k) = rat_of_int (int n * 2 ^ k)" by (simp add: p q_def)
  then have "round_half_even (q / power_int 2 (- int k)) = int n * 2 ^ k"
    by (simp only: round_half_even_of_int)
  then have "round_double q = rat_of_int (int n * 2 ^ k) * power_int 2 (- int k)"
    unfolding round_double_pos[OF q(1)] e by simp
  also have "\<dots> = q" by (simp add: p q_def)
  finally show ?thesis by (simp add: q_def)
qed

text \<open>From \<open>1/2\<close> on, rounding adds at most one part in \<open>2^53\<close>.\<close>

lemma round_double_upper:
  assumes "1 / 2 \<le> x"
  shows "round_double x \<le> x + x / 2 ^ 53"
proof -
  have x: "0 < x" using assms by simp
  define e where "e = floor_log2 x - 52"
  have "power_int 2 (- 1) \<le> x" using assms by (simp add: power_int_minus_divide)
  then have "- 1 \<le> floor_log2 x" by (rule floor_log2_ge[OF x])
  then have m: "max (floor_log2 x - 52) (- 1074) = e" by (simp add: e_def)
  have p: "0 < power_int (2::rat) e" by simp
  have "power_int (2::rat) e = power_int 2 (floor_log2 x) / power_int 2 52"
    unfolding e_def by (rule power_int_diff) simp
  also have "\<dots> \<le> x / power_int 2 52"
    using floor_log2_le[OF x] by (simp add: divide_right_mono)
  finally have pe: "power_int 2 e \<le> x / 2 ^ 52" by simp
  have "round_double x = rat_of_int (round_half_even (x / power_int 2 e)) * power_int 2 e"
    unfolding round_double_pos[OF x] m ..
  also have "\<dots> \<le> (x / power_int 2 e + 1 / 2) * power_int 2 e"
    using round_half_even_upper[of "x / power_int 2 e"] p by (simp only: mult_right_mono less_imp_le)
  also have "\<dots> = x + power_int 2 e / 2" using p by (simp add: field_simps)
  also have "\<dots> \<le> x + x / 2 ^ 53" using pe by simp
  finally show ?thesis .
qed

text \<open>The target of the trap pass for \<open>n\<close> floor tiles, against the exact product for a
  larger count \<open>N\<close> of at most \<open>2^53\<close>.\<close>

lemma trap_target_le:
  assumes "n < N" "N \<le> 2 ^ 53" "0 \<le> d"
  shows "\<lfloor>round_double (round_double (rat_of_nat n) * d)\<rfloor> \<le> \<lfloor>rat_of_nat N * d\<rfloor>"
proof -
  define x where "x = rat_of_nat n * d"
  have n: "n < 2 ^ 53" using assms(1,2) by simp
  have r: "round_double (round_double (rat_of_nat n) * d) = round_double x"
    using round_double_of_nat[OF n] by (simp add: x_def)
  have x0: "0 \<le> x" using assms(3) by (simp add: x_def)
  have N0: "0 \<le> rat_of_nat N * d" using assms(3) by simp
  show ?thesis
  proof (cases "x < 1 / 2")
    case True
    have "round_double x \<le> round_double (1 / 2)"
      using x0 True by (intro round_double_mono) simp_all
    also have "\<dots> \<le> 1 / 2 + 1 / 2 / 2 ^ 53" by (rule round_double_upper) simp
    also have "\<dots> < 1" by simp
    finally have "\<lfloor>round_double x\<rfloor> < 1" by (simp add: floor_less_iff)
    moreover have "0 \<le> \<lfloor>rat_of_nat N * d\<rfloor>" using N0 by simp
    ultimately show ?thesis unfolding r by linarith
  next
    case False
    then have h: "1 / 2 \<le> x" by simp
    have n0: "0 < n" using h assms(3) by (cases "n = 0") (simp_all add: x_def)
    have "rat_of_nat n \<le> rat_of_nat (2 ^ 53)" using n by (simp only: of_nat_le_iff less_imp_le)
    then have "rat_of_nat n \<le> 2 ^ 53" by simp
    then have "x / 2 ^ 53 \<le> x / rat_of_nat n"
      using x0 n0 by (intro divide_left_mono) simp_all
    also have "\<dots> = d" using n0 by (simp add: x_def)
    finally have "x + x / 2 ^ 53 \<le> x + d" by linarith
    also have "\<dots> = rat_of_nat (Suc n) * d" by (simp add: x_def algebra_simps)
    also have "\<dots> \<le> rat_of_nat N * d"
    proof (rule mult_right_mono)
      show "rat_of_nat (Suc n) \<le> rat_of_nat N" using assms(1) by (simp only: of_nat_le_iff Suc_le_eq)
    qed (rule assms(3))
    finally have "round_double x \<le> rat_of_nat N * d" using round_double_upper[OF h] by linarith
    then show ?thesis unfolding r by (rule floor_mono)
  qed
qed

subsection \<open>Loops and grid writes\<close>

lemma for_each_invariant:
  assumes "for_each body xs s = Inr s'" and "P s"
    and "\<And>x a b. x \<in> set xs \<Longrightarrow> P a \<Longrightarrow> body x a = Inr b \<Longrightarrow> P b"
  shows "P s'"
  using assms
proof (induction xs arbitrary: s)
  case Nil
  then show ?case by simp
next
  case (Cons x xs)
  from Cons.prems(1) obtain s1 where b: "body x s = Inr s1" and r: "for_each body xs s1 = Inr s'"
    by (auto split: sum.splits)
  have p1: "P s1" using Cons.prems(3)[OF _ Cons.prems(2) b] by simp
  show ?case
    by (rule Cons.IH[OF r p1]) (use Cons.prems(3) in auto)
qed

lemma py_index_Inr: "py_index n i = Inr k \<Longrightarrow> k < n"
  by (auto simp: py_index_def split: if_splits)

lemma grid_set_Inr:
  assumes "grid_set x y v g = Inr g'"
  obtains j i where "j < length g" "i < length (g ! j)" "g' = g[j := (g ! j)[i := v]]"
    "grid_get x y g = Inr (g ! j ! i)"
  using assms
  by (auto simp: grid_set_def grid_get_def split: sum.splits dest: py_index_Inr)

lemma count_list_update:
  "i < length row \<Longrightarrow>
   count_list (row[i := v]) t + (if row ! i = t then 1 else 0)
   = count_list row t + (if v = t then 1 else 0)"
proof (induction row arbitrary: i)
  case Nil
  then show ?case by simp
next
  case (Cons a row)
  show ?case
  proof (cases i)
    case 0
    then show ?thesis by simp
  next
    case (Suc k)
    then show ?thesis using Cons.IH[of k] Cons.prems by (simp split: if_splits)
  qed
qed

lemma count_concat_update:
  "j < length g \<Longrightarrow>
   count_list (concat (g[j := r'])) t + count_list (g ! j) t
   = count_list (concat g) t + count_list r' t"
proof (induction g arbitrary: j)
  case Nil
  then show ?case by simp
next
  case (Cons a g)
  then show ?case by (cases j) (auto simp: add.assoc)
qed

lemma set_concat_update:
  "j < length g \<Longrightarrow> i < length (g ! j) \<Longrightarrow>
   set (concat (g[j := (g ! j)[i := v]])) \<subseteq> insert v (set (concat g))"
proof (induction g arbitrary: j)
  case Nil
  then show ?case by simp
next
  case (Cons a g)
  show ?case
  proof (cases j)
    case 0
    then show ?thesis using Cons.prems set_update_subset_insert[of a i v] by auto
  next
    case (Suc k)
    then show ?thesis using Cons.IH[of k] Cons.prems by auto
  qed
qed

lemma grid_set_tiles:
  assumes "grid_set x y v g = Inr g'" "tiles_in A g" "v \<in> A"
  shows "tiles_in A g'"
proof -
  from assms(1) obtain j i where "j < length g" "i < length (g ! j)"
    "g' = g[j := (g ! j)[i := v]]" by (rule grid_set_Inr)
  then show ?thesis using set_concat_update[of j g i v] assms(2,3)
    by (auto simp: tiles_in_def)
qed

lemma grid_set_count:
  assumes "grid_set x y v g = Inr g'"
  obtains old where "grid_get x y g = Inr old"
    "count_tiles t g' + (if old = t then 1 else 0) = count_tiles t g + (if v = t then 1 else 0)"
proof -
  from assms(1) obtain j i where ji: "j < length g" "i < length (g ! j)"
    "g' = g[j := (g ! j)[i := v]]" "grid_get x y g = Inr (g ! j ! i)" by (rule grid_set_Inr)
  have a: "count_list (concat g') t + count_list (g ! j) t
        = count_list (concat g) t + count_list ((g ! j)[i := v]) t"
    using count_concat_update[OF ji(1)] ji(3) by simp
  have b: "count_list ((g ! j)[i := v]) t + (if g ! j ! i = t then 1 else 0)
        = count_list (g ! j) t + (if v = t then 1 else 0)"
    using count_list_update[OF ji(2)] by simp
  have "count_tiles t g' + (if g ! j ! i = t then 1 else 0)
        = count_tiles t g + (if v = t then 1 else 0)"
    using a b unfolding count_tiles_def by linarith
  then show thesis using that ji(4) by blast
qed

lemma grid_set_length:
  assumes "grid_set x y v g = Inr g'"
  shows "length g' = length g \<and> map length g' = map length g"
proof -
  from assms(1) obtain j i where ji: "j < length g" "i < length (g ! j)"
    "g' = g[j := (g ! j)[i := v]]" by (rule grid_set_Inr)
  then show ?thesis by (simp add: map_update list_update_same_conv)
qed

lemma grid_set_get:
  assumes "grid_set x y v g = Inr g'" "grid_get x2 y2 g = Inr c"
  shows "grid_get x2 y2 g' = Inr c \<or> grid_get x2 y2 g' = Inr v"
proof -
  from assms(1) obtain j i where ji: "j < length g" "i < length (g ! j)"
    "g' = g[j := (g ! j)[i := v]]" by (rule grid_set_Inr)
  from assms(2) obtain j2 i2 where a: "py_index (length g) y2 = Inr j2"
    "py_index (length (g ! j2)) x2 = Inr i2" "c = g ! j2 ! i2"
    by (auto simp: grid_get_def split: sum.splits)
  have "j2 < length g" using a(1) by (rule py_index_Inr)
  then show ?thesis using ji a
    by (cases "j2 = j"; cases "i2 = i") (auto simp: grid_get_def dest: py_index_Inr)
qed

subsection \<open>Properties that carving preserves\<close>

lemma floor_closedD: "floor_closed P \<Longrightarrow> P a \<Longrightarrow> grid_set x y FLOOR a = Inr b \<Longrightarrow> P b"
  unfolding floor_closed_def by blast

lemma floor_closed_tiles: "FLOOR \<in> A \<Longrightarrow> floor_closed (tiles_in A)"
  unfolding floor_closed_def using grid_set_tiles by blast

lemma floor_closed_traps: "floor_closed (\<lambda>g. count_tiles TRAP g \<le> n)"
  unfolding floor_closed_def
proof (intro allI impI)
  fix x y a b
  assume a: "count_tiles TRAP a \<le> n" and s: "grid_set x y FLOOR a = Inr b"
  from s obtain old where
    "count_tiles TRAP b + (if old = TRAP then 1 else 0)
     = count_tiles TRAP a + (if FLOOR = TRAP then 1 else 0)"
    by (rule grid_set_count)
  then show "count_tiles TRAP b \<le> n" using a by (simp split: if_splits)
qed

lemma carve_room_grid:
  assumes "carve_room room g = Inr g'" "floor_closed P" "P g"
  shows "P g'"
  using assms(1) unfolding carve_room_def
proof (rule for_each_invariant[where P = P])
  show "P g" by fact
next
  fix y a b
  assume a: "P a" and b: "for_each (\<lambda>x. grid_set x y FLOOR)
      (py_range (room_x room) (room_x room + room_width room)) a = Inr b"
  show "P b"
    using b a by (rule for_each_invariant[where P = P]) (rule floor_closedD[OF assms(2)])
qed

lemma carve_cell_grid:
  "carve_cell cfg x y g = Inr g' \<Longrightarrow> floor_closed P \<Longrightarrow> P g \<Longrightarrow> P g'"
  by (auto simp: carve_cell_def split: if_splits intro: floor_closedD)

lemma carve_h_corridor_grid:
  assumes "carve_h_corridor cfg x1 x2 y g = Inr g'" "floor_closed P" "P g"
  shows "P g'"
  using assms(1) unfolding carve_h_corridor_def
  by (rule for_each_invariant[where P = P]) (auto intro: assms carve_cell_grid)

lemma carve_v_corridor_grid:
  assumes "carve_v_corridor cfg y1 y2 x g = Inr g'" "floor_closed P" "P g"
  shows "P g'"
  using assms(1) unfolding carve_v_corridor_def
  by (rule for_each_invariant[where P = P]) (auto intro: assms carve_cell_grid)

lemma carve_corridorE:
  assumes "carve_corridor cfg r1 r2 gt = Inr gt'"
  obtains g1 a b c d e f where
    "carve_h_corridor cfg a b c (fst gt) = Inr g1" "carve_v_corridor cfg d e f g1 = Inr (fst gt')"
  | g1 a b c d e f where
    "carve_v_corridor cfg a b c (fst gt) = Inr g1" "carve_h_corridor cfg d e f g1 = Inr (fst gt')"
  using assms unfolding carve_corridor_def Let_def
  by (auto split: prod.splits if_splits sum.splits)

lemma carve_corridor_grid:
  assumes "carve_corridor cfg r1 r2 gt = Inr gt'" "floor_closed P" "P (fst gt)"
  shows "P (fst gt')"
  using assms(1)
proof (cases rule: carve_corridorE)
  case (1 g1 a b c d e f)
  have "P g1" using carve_h_corridor_grid[OF 1(1) assms(2,3)] .
  then show ?thesis using carve_v_corridor_grid[OF 1(2) assms(2)] by simp
next
  case (2 g1 a b c d e f)
  have "P g1" using carve_v_corridor_grid[OF 2(1) assms(2,3)] .
  then show ?thesis using carve_h_corridor_grid[OF 2(2) assms(2)] by simp
qed

lemma place_trialE:
  assumes "place_trial cfg s = Inr s'"
  obtains (placed) w h x y t1 t2 t3 t4 g where
    "randint (min_room_size cfg) (max_room_size cfg) (rng s) = Inr (w, t1)"
    "randint (min_room_size cfg) (max_room_size cfg) t1 = Inr (h, t2)"
    "randint 2 (width cfg - w - 2) t2 = Inr (x, t3)"
    "randint 2 (height cfg - h - 2) t3 = Inr (y, t4)"
    "\<not> check_room_overlap (rooms s) x y w h"
    "carve_room (new_room (next_room_id s) CORRIDOR x y w h) (grid s) = Inr g"
    "s' = s\<lparr>rooms := rooms s @ [new_room (next_room_id s) CORRIDOR x y w h], grid := g,
            next_room_id := next_room_id s + 1, rng := t4\<rparr>"
  | (rejected) t where "s' = s\<lparr>rng := t\<rparr>"
  using assms unfolding place_trial_def Let_def
  by (simp split: prod.splits if_splits sum.splits) blast+

subsection \<open>The successful runs of each phase\<close>

lemma link_roomsE:
  assumes "link_rooms cfg i j ci cj s = Inr s'"
  obtains g t where "i < length (rooms s)" "j < length (rooms s)"
    "carve_corridor cfg (rooms s ! i) (rooms s ! j) (grid s, rng s) = Inr (g, t)"
    "s' = s\<lparr>rooms := ((rooms s)[i := add_connection cj (rooms s ! i)])
                  [j := add_connection ci (((rooms s)[i := add_connection cj (rooms s ! i)]) ! j)],
            grid := g, rng := t\<rparr>"
  using assms unfolding link_rooms_def rooms_at_def Let_def
  by (simp split: prod.splits if_splits sum.splits)

lemma spanning_loop_step:
  "unconn \<noteq> [] \<Longrightarrow>
   spanning_loop rt cfg conn unconn s =
     (case find_best_pair (rooms s) (set_iter rt conn) (set_iter rt unconn) of
        Inl e \<Rightarrow> Inl e
      | Inr (best_dist, best_pair) \<Rightarrow>
     (case link_rooms cfg (fst best_pair) (snd best_pair)
             (int (fst best_pair)) (int (snd best_pair)) s of
        Inl e \<Rightarrow> Inl e
      | Inr s' \<Rightarrow>
          if snd best_pair \<in> set unconn
          then spanning_loop rt cfg (set_add (snd best_pair) conn)
                 (removeAll (snd best_pair) unconn) s'
          else Inl KeyError))"
  by (subst spanning_loop.simps) simp

lemma spanning_loop_Nil: "spanning_loop rt cfg conn [] s = Inr s"
  by (subst spanning_loop.simps) simp

lemma spanning_loopE:
  assumes "spanning_loop rt cfg conn unconn s = Inr s'" "unconn \<noteq> []"
  obtains bd bp s1 where
    "find_best_pair (rooms s) (set_iter rt conn) (set_iter rt unconn) = Inr (bd, bp)"
    "link_rooms cfg (fst bp) (snd bp) (int (fst bp)) (int (snd bp)) s = Inr s1"
    "snd bp \<in> set unconn"
    "spanning_loop rt cfg (set_add (snd bp) conn) (removeAll (snd bp) unconn) s1 = Inr s'"
  using assms(1) unfolding spanning_loop_step[OF assms(2)]
  by (simp split: prod.splits if_splits sum.splits)

lemma choice_Inr:
  assumes "choice xs t = Inr (x, t')"
  obtains k where "k < length xs" "x = xs ! k"
proof -
  from assms have ne: "xs \<noteq> []" by (auto simp: choice_def split: if_splits)
  from assms ne obtain n where x: "x = xs ! nat (n mod int (length xs))"
    by (auto simp: choice_def split: if_splits prod.splits)
  have "nat (n mod int (length xs)) < length xs" using ne by (simp add: nat_less_iff)
  then show thesis using that x by blast
qed

lemma extra_connectionE:
  assumes "extra_connection cfg s = Inr s'"
  obtains (linked) i1 i2 t where "i1 < length (rooms s)" "i2 < length (rooms s)"
    "link_rooms cfg i1 i2 (room_id (rooms s ! i1)) (room_id (rooms s ! i2)) (s\<lparr>rng := t\<rparr>) = Inr s'"
  | (skipped) t where "s' = s\<lparr>rng := t\<rparr>"
proof -
  from assms obtain i1 t1 i2 t2 where
    c1: "choice [0..<length (rooms s)] (rng s) = Inr (i1, t1)" and
    c2: "choice [0..<length (rooms s)] t1 = Inr (i2, t2)" and
    r: "link_rooms cfg i1 i2 (room_id (rooms s ! i1)) (room_id (rooms s ! i2)) (s\<lparr>rng := t2\<rparr>) = Inr s'
        \<or> s' = s\<lparr>rng := t2\<rparr>"
    unfolding extra_connection_def Let_def
    by (simp split: prod.splits if_splits sum.splits)
  from c1 have "i1 < length (rooms s)" by (rule choice_Inr) simp
  moreover from c2 have "i2 < length (rooms s)" by (rule choice_Inr) simp
  ultimately show thesis using r linked skipped by blast
qed

lemma connect_roomsE:
  assumes "connect_rooms rt cfg s = Inr s'"
  obtains (few) "length (rooms s) < 2" "s' = s"
  | (many) s1 n t where "2 \<le> length (rooms s)"
    "spanning_loop rt cfg [0] [1..<length (rooms s)] s = Inr s1"
    "randint 1 (int (length (rooms s1)) div 4) (rng s1) = Inr (n, t)"
    "for_each (\<lambda>_. extra_connection cfg) [0..<nat n] (s1\<lparr>rng := t\<rparr>) = Inr s'"
  using assms unfolding connect_rooms_def
  by (simp split: prod.splits if_splits sum.splits)

lemma place_special_roomsE:
  assumes "place_special_rooms cfg s = Inr s'"
  obtains (none) "rooms s = []" "s' = s"
  | (some) ei bi where "rooms s \<noteq> []"
    "py_min_index (edge_distance cfg) (rooms s) = Inr ei"
    "py_max_index (room_distance_sq (((rooms s)[ei := set_room_type ENTRANCE (rooms s ! ei)]) ! ei))
       ((rooms s)[ei := set_room_type ENTRANCE (rooms s ! ei)]) = Inr bi"
    "s' = s\<lparr>rooms := ((rooms s)[ei := set_room_type ENTRANCE (rooms s ! ei)])
              [bi := set_room_type BOSS (((rooms s)[ei := set_room_type ENTRANCE (rooms s ! ei)]) ! bi)]\<rparr>"
  using assms unfolding place_special_rooms_def Let_def
  by (simp split: prod.splits if_splits sum.splits)

lemma populate_roomsE:
  assumes "populate_rooms cfg s = Inr s'"
  obtains rs1 t1 rs2 t2 where
    "for_rooms (populate_room cfg) (rooms s) (rng s) = Inr (rs1, t1)"
    "for_rooms (populate_boss cfg) rs1 t1 = Inr (rs2, t2)"
    "s' = s\<lparr>rooms := rs2, rng := t2\<rparr>"
  using assms unfolding populate_rooms_def
  by (simp split: prod.splits sum.splits)

lemma add_trapsE:
  assumes "add_traps cfg s = Inr s'"
  obtains floor_tiles trap_tiles t g where
    "for_each (\<lambda>y. for_each (collect_floor (grid s) y) (py_range 0 (width cfg)))
       (py_range 0 (height cfg)) [] = Inr floor_tiles"
    "sample floor_tiles
       (min (py_int (round_double (round_double (rat_of_nat (length floor_tiles))
                                   * trap_density cfg)))
            (int (length floor_tiles))) (rng s) = Inr (trap_tiles, t)"
    "for_each (\<lambda>(x, y). grid_set x y TRAP) trap_tiles (grid s) = Inr g"
    "s' = s\<lparr>grid := g, rng := t\<rparr>"
  using assms unfolding add_traps_def Let_def
  by (simp split: prod.splits sum.splits if_splits)

lemma place_secretE:
  assumes "place_secret cfg x y w h s = Inr s'"
  obtains g l t where
    "carve_room (new_room (next_room_id s) SECRET x y w h) (grid s) = Inr g"
    "s' = s\<lparr>rooms := rooms s @ [(new_room (next_room_id s) SECRET x y w h)\<lparr>loot := l\<rparr>],
            grid := g, next_room_id := next_room_id s + 1, rng := t\<rparr>"
  using assms unfolding place_secret_def Let_def
  by (simp split: prod.splits sum.splits) blast

lemma secret_loopE:
  assumes "secret_loop cfg (Suc k) s = Inr s'"
  obtains (fit) base_room t1 w h x y t t2 where
    "choice (rooms s) (rng s) = Inr (base_room, t1)"
    "first_fit cfg (rooms s) w h (secret_positions base_room w h) = Some (x, y)"
    "place_secret cfg x y w h (s\<lparr>rng := t\<rparr>) = Inr s'"
    "randint 3 6 t1 = Inr (w, t2)" "randint 3 6 t2 = Inr (h, t)"
  | (retry) t where "secret_loop cfg k (s\<lparr>rng := t\<rparr>) = Inr s'"
  using assms
  by (simp split: prod.splits sum.splits option.splits)

lemma add_secret_roomsE:
  assumes "add_secret_rooms cfg s = Inr s'"
  obtains (skip) t where "s' = s\<lparr>rng := t\<rparr>"
  | (attempt) t where "secret_loop cfg 10 (s\<lparr>rng := t\<rparr>) = Inr s'"
  using assms unfolding add_secret_rooms_def
  by (simp split: prod.splits if_splits) blast+

lemma generate_rooms_bspE:
  assumes "generate_rooms_bsp cfg s = Inr s'"
  obtains n t where "place_loop cfg n (nat (n * 3)) (s\<lparr>rng := t\<rparr>) = Inr s'"
  using assms unfolding generate_rooms_bsp_def
  by (simp split: prod.splits sum.splits)

lemma place_loopE:
  assumes "place_loop cfg n (Suc k) s = Inr s'"
  obtains (stop) "s' = s"
  | (trial) s1 where "place_trial cfg s = Inr s1" "place_loop cfg n k s1 = Inr s'"
  using assms by (simp split: if_splits sum.splits)

lemma generate_dungeonE:
  assumes "generate_dungeon rt cfg seed_arg = Inr d"
  obtains s0 s1 s2 s3 s4 s5 s6 where
    "rooms s0 = []" "next_room_id s0 = 0"
    "grid s0 = replicate (nat (height cfg)) (replicate (nat (width cfg)) WALL)"
    "generate_rooms_bsp cfg s0 = Inr s1"
    "connect_rooms rt cfg s1 = Inr s2"
    "place_special_rooms cfg s2 = Inr s3"
    "populate_rooms cfg s3 = Inr s4"
    "generate_layout rt cfg (s0\<lparr>grid := []\<rparr>) = Inr s4"
    "add_traps cfg s4 = Inr s5"
    "add_secret_rooms cfg s5 = Inr s6"
    "d = export cfg s6"
proof -
  from assms obtain si where i: "DungeonGenerator_init rt seed_arg = Inr si"
    and g: "generate rt cfg si = Inr d"
    unfolding generate_dungeon_def by (simp split: sum.splits)
  from i have si: "rooms si = []" "next_room_id si = 0" "grid si = []"
    unfolding DungeonGenerator_init_def by (auto split: sum.splits option.splits if_splits)
  from g obtain s4 s5 s6 where l: "generate_layout rt cfg si = Inr s4"
    and t: "add_traps cfg s4 = Inr s5" and sr: "add_secret_rooms cfg s5 = Inr s6"
    and d: "d = export cfg s6"
    unfolding generate_def by (simp split: sum.splits)
  define s0 where "s0 = si\<lparr>grid := replicate (nat (height cfg)) (replicate (nat (width cfg)) WALL)\<rparr>"
  from l obtain s1 s2 s3 where "generate_rooms_bsp cfg s0 = Inr s1"
    "connect_rooms rt cfg s1 = Inr s2" "place_special_rooms cfg s2 = Inr s3"
    "populate_rooms cfg s3 = Inr s4"
    unfolding generate_layout_def s0_def by (simp split: sum.splits)
  moreover have "s0\<lparr>grid := []\<rparr> = si" using si by (simp add: s0_def)
  moreover have "rooms s0 = []" "next_room_id s0 = 0"
    "grid s0 = replicate (nat (height cfg)) (replicate (nat (width cfg)) WALL)"
    using si by (simp_all add: s0_def)
  ultimately show thesis using that[of s0 s1 s2 s3 s4 s5 s6] l t sr d
    by simp
qed

subsection \<open>The grid through the phases\<close>

lemma place_trial_grid:
  assumes "place_trial cfg s = Inr s'" "floor_closed P" "P (grid s)"
  shows "P (grid s')"
  using assms(1)
proof (cases rule: place_trialE)
  case (placed w h x y t1 t2 t3 t4 g)
  then show ?thesis using carve_room_grid[OF placed(6) assms(2,3)] by simp
next
  case (rejected t)
  then show ?thesis using assms(3) by simp
qed

lemma place_loop_grid:
  "place_loop cfg n k s = Inr s' \<Longrightarrow> floor_closed P \<Longrightarrow> P (grid s) \<Longrightarrow> P (grid s')"
proof (induction k arbitrary: s)
  case 0
  then show ?case by simp
next
  case (Suc k)
  from Suc.prems(1) show ?case
  proof (cases rule: place_loopE)
    case stop
    then show ?thesis using Suc.prems by simp
  next
    case (trial s1)
    show ?thesis
      using Suc.IH[OF trial(2) Suc.prems(2)] place_trial_grid[OF trial(1) Suc.prems(2,3)] .
  qed
qed

lemma generate_rooms_bsp_grid:
  assumes "generate_rooms_bsp cfg s = Inr s'" "floor_closed P" "P (grid s)"
  shows "P (grid s')"
proof -
  from assms(1) obtain n t where "place_loop cfg n (nat (n * 3)) (s\<lparr>rng := t\<rparr>) = Inr s'"
    by (rule generate_rooms_bspE)
  then show ?thesis using place_loop_grid[of cfg n _ "s\<lparr>rng := t\<rparr>" s' P] assms(2,3) by simp
qed

lemma link_rooms_grid:
  assumes "link_rooms cfg i j ci cj s = Inr s'" "floor_closed P" "P (grid s)"
  shows "P (grid s')"
proof -
  from assms(1) obtain g t where
    c: "carve_corridor cfg (rooms s ! i) (rooms s ! j) (grid s, rng s) = Inr (g, t)"
    and g: "grid s' = g"
    by (rule link_roomsE) simp
  show ?thesis using carve_corridor_grid[OF c assms(2)] assms(3) g by simp
qed

lemma spanning_loop_grid:
  "spanning_loop rt cfg conn unconn s = Inr s' \<Longrightarrow> floor_closed P \<Longrightarrow> P (grid s)
   \<Longrightarrow> P (grid s')"
proof (induction rt cfg conn unconn s rule: spanning_loop.induct)
  case (1 rt cfg conn unconn s)
  show ?case
  proof (cases "unconn = []")
    case True
    then show ?thesis using "1.prems" by (simp add: spanning_loop_Nil)
  next
    case False
    from "1.prems"(1) False obtain bd bp s1 where
      f: "find_best_pair (rooms s) (set_iter rt conn) (set_iter rt unconn) = Inr (bd, bp)"
      and l: "link_rooms cfg (fst bp) (snd bp) (int (fst bp)) (int (snd bp)) s = Inr s1"
      and m: "snd bp \<in> set unconn"
      and r: "spanning_loop rt cfg (set_add (snd bp) conn) (removeAll (snd bp) unconn) s1 = Inr s'"
      by (rule spanning_loopE)
    have "P (grid s1)" using link_rooms_grid[OF l "1.prems"(2,3)] .
    then show ?thesis using "1.IH"[OF False f refl l m r "1.prems"(2)] by simp
  qed
qed

lemma extra_connection_grid:
  assumes "extra_connection cfg s = Inr s'" "floor_closed P" "P (grid s)"
  shows "P (grid s')"
  using assms(1)
proof (cases rule: extra_connectionE)
  case (linked i1 i2 t)
  show ?thesis using link_rooms_grid[OF linked(3) assms(2)] assms(3) by simp
next
  case (skipped t)
  then show ?thesis using assms(3) by simp
qed

lemma connect_rooms_grid:
  assumes "connect_rooms rt cfg s = Inr s'" "floor_closed P" "P (grid s)"
  shows "P (grid s')"
  using assms(1)
proof (cases rule: connect_roomsE)
  case few
  then show ?thesis using assms(3) by simp
next
  case (many s1 n t)
  have "P (grid (s1\<lparr>rng := t\<rparr>))" using spanning_loop_grid[OF many(2) assms(2,3)] by simp
  with many(4) show ?thesis
    by (rule for_each_invariant[where P = "\<lambda>s. P (grid s)"])
       (rule extra_connection_grid[OF _ assms(2)])
qed

lemma place_special_rooms_grid: "place_special_rooms cfg s = Inr s' \<Longrightarrow> grid s' = grid s"
  by (erule place_special_roomsE) simp_all

lemma populate_rooms_grid: "populate_rooms cfg s = Inr s' \<Longrightarrow> grid s' = grid s"
  by (erule populate_roomsE) simp

lemma place_secret_grid:
  assumes "place_secret cfg x y w h s = Inr s'" "floor_closed P" "P (grid s)"
  shows "P (grid s')"
proof -
  from assms(1) obtain g where
    "carve_room (new_room (next_room_id s) SECRET x y w h) (grid s) = Inr g" "grid s' = g"
    by (rule place_secretE) simp
  then show ?thesis using carve_room_grid[OF _ assms(2,3)] by simp
qed

lemma secret_loop_grid:
  "secret_loop cfg k s = Inr s' \<Longrightarrow> floor_closed P \<Longrightarrow> P (grid s) \<Longrightarrow> P (grid s')"
proof (induction k arbitrary: s)
  case 0
  then show ?case by simp
next
  case (Suc k)
  from Suc.prems(1) show ?case
  proof (cases rule: secret_loopE)
    case (fit base_room t1 w h x y t t2)
    show ?thesis using place_secret_grid[OF fit(3) Suc.prems(2)] Suc.prems(3) by simp
  next
    case (retry t)
    show ?thesis using Suc.IH[OF retry Suc.prems(2)] Suc.prems(3) by simp
  qed
qed

lemma add_secret_rooms_grid:
  assumes "add_secret_rooms cfg s = Inr s'" "floor_closed P" "P (grid s)"
  shows "P (grid s')"
  using assms(1)
proof (cases rule: add_secret_roomsE)
  case (skip t)
  then show ?thesis using assms(3) by simp
next
  case (attempt t)
  show ?thesis using secret_loop_grid[OF attempt assms(2)] assms(3) by simp
qed

text \<open>The grid before the trap pass.\<close>

lemma layout_grid:
  assumes "generate_rooms_bsp cfg s0 = Inr s1" "connect_rooms rt cfg s1 = Inr s2"
    "place_special_rooms cfg s2 = Inr s3" "populate_rooms cfg s3 = Inr s4"
    "floor_closed P" "P (grid s0)"
  shows "P (grid s4)"
proof -
  have "P (grid s1)" using generate_rooms_bsp_grid[OF assms(1,5,6)] .
  then have "P (grid s2)" using connect_rooms_grid[OF assms(2,5)] by simp
  then show ?thesis
    using place_special_rooms_grid[OF assms(3)] populate_rooms_grid[OF assms(4)] by simp
qed

lemma tiles_in_walls: "WALL \<in> A \<Longrightarrow> tiles_in A (replicate h (replicate w WALL))"
  by (auto simp: tiles_in_def)

lemma trap_writes_tiles:
  assumes "for_each (\<lambda>(x, y). grid_set x y TRAP) ps g = Inr g'" "tiles_in A g" "TRAP \<in> A"
  shows "tiles_in A g'"
  using assms(1,2)
  by (rule for_each_invariant[where P = "tiles_in A"]) (auto intro: grid_set_tiles assms(3))

text \<open>
  C10. Every tile of the exported grid is a wall, a floor or a trap tile; the other tags
  of the tile enumeration occur in no generated dungeon.
\<close>

theorem exported_grid_tags:
  assumes "generate_dungeon rt cfg seed_arg = Inr d"
  shows "set (concat (d_grid d)) \<subseteq> {WALL, FLOOR, TRAP}"
proof -
  let ?A = "{WALL, FLOOR, TRAP}"
  have fc: "floor_closed (tiles_in ?A)" by (rule floor_closed_tiles) simp
  from assms obtain s0 s1 s2 s3 s4 s5 s6 where
    g0: "grid s0 = replicate (nat (height cfg)) (replicate (nat (width cfg)) WALL)"
    and p: "generate_rooms_bsp cfg s0 = Inr s1" "connect_rooms rt cfg s1 = Inr s2"
      "place_special_rooms cfg s2 = Inr s3" "populate_rooms cfg s3 = Inr s4"
    and t: "add_traps cfg s4 = Inr s5" and sr: "add_secret_rooms cfg s5 = Inr s6"
    and d: "d = export cfg s6"
    by (rule generate_dungeonE)
  have "tiles_in ?A (grid s0)" unfolding g0 by (rule tiles_in_walls) simp
  then have "tiles_in ?A (grid s4)" by (rule layout_grid[OF p fc])
  moreover from t obtain trap_tiles g where
    "for_each (\<lambda>(x, y). grid_set x y TRAP) trap_tiles (grid s4) = Inr g" "grid s5 = g"
    by (rule add_trapsE) simp
  ultimately have "tiles_in ?A (grid s5)" using trap_writes_tiles[of trap_tiles "grid s4" g ?A]
    by simp
  then have "tiles_in ?A (grid s6)" by (rule add_secret_rooms_grid[OF sr fc])
  then show ?thesis by (simp add: d export_def tiles_in_def)
qed

subsection \<open>The concrete runs, evaluated\<close>

lemma demo_run: "generate_dungeon demo_runtime demo_config (Some 42) = Inr (demo_dungeon [])"
  by code_simp

lemma demo_layout_run: "layout_state demo_runtime demo_config (Some 42) = Inr demo_layout"
  by code_simp

theorem exported_grid_tags_witness:
  "generate_dungeon demo_runtime demo_config (Some 42) = Inr (demo_dungeon []) \<and>
   set (concat (d_grid (demo_dungeon []))) \<subseteq> {WALL, FLOOR, TRAP}"
  using exported_grid_tags[OF demo_run] demo_run by simp

subsection \<open>The trap pass\<close>

lemma for_each_measure:
  assumes "for_each body xs s = Inr s'"
    and "\<And>x a b. body x a = Inr b \<Longrightarrow> m b \<le> m a + (c::nat)"
  shows "m s' \<le> m s + c * length xs"
  using assms(1)
proof (induction xs arbitrary: s)
  case Nil
  then show ?case by simp
next
  case (Cons x xs)
  from Cons.prems obtain s1 where b: "body x s = Inr s1" and r: "for_each body xs s1 = Inr s'"
    by (auto split: sum.splits)
  have "m s1 \<le> m s + c" using assms(2)[OF b] .
  moreover have "m s' \<le> m s1 + c * length xs" using Cons.IH[OF r] .
  ultimately show ?case by simp
qed

lemma length_py_range: "length (py_range 0 n) = nat n"
  by (simp add: py_range_def)

lemma collect_floor_length:
  "collect_floor g y x acc = Inr acc' \<Longrightarrow> length acc' \<le> length acc + 1"
  by (auto simp: collect_floor_def split: sum.splits if_splits)

lemma collect_floor_cells:
  assumes "collect_floor g y x acc = Inr acc'"
    and "\<forall>p \<in> set acc. grid_get (fst p) (snd p) g = Inr FLOOR"
  shows "\<forall>p \<in> set acc'. grid_get (fst p) (snd p) g = Inr FLOOR"
  using assms by (auto simp: collect_floor_def split: sum.splits if_splits)

lemma floor_tiles_length:
  assumes "for_each (\<lambda>y. for_each (collect_floor g y) (py_range 0 w)) (py_range 0 h) []
           = Inr floor_tiles"
  shows "length floor_tiles \<le> nat w * nat h"
proof -
  have inner: "length b \<le> length a + nat w"
    if "for_each (collect_floor g y) (py_range 0 w) a = Inr b" for y a b
    using for_each_measure[OF that, where m = length and c = 1] collect_floor_length
    by (simp add: length_py_range)
  show ?thesis
    using for_each_measure[OF assms, where m = length and c = "nat w"] inner
    by (simp add: length_py_range)
qed

lemma floor_tiles_cells:
  assumes "for_each (\<lambda>y. for_each (collect_floor g y) (py_range 0 w)) (py_range 0 h) []
           = Inr floor_tiles"
  shows "\<forall>p \<in> set floor_tiles. grid_get (fst p) (snd p) g = Inr FLOOR"
  using assms
proof (rule for_each_invariant[where P = "\<lambda>acc. \<forall>p \<in> set acc. grid_get (fst p) (snd p) g = Inr FLOOR"])
  show "\<forall>p \<in> set []. grid_get (fst p) (snd p) g = Inr FLOOR" by simp
next
  fix y a b
  assume a: "\<forall>p \<in> set a. grid_get (fst p) (snd p) g = Inr FLOOR"
    and b: "for_each (collect_floor g y) (py_range 0 w) a = Inr b"
  show "\<forall>p \<in> set b. grid_get (fst p) (snd p) g = Inr FLOOR"
    using b a
    by (rule for_each_invariant[where P = "\<lambda>acc. \<forall>p \<in> set acc. grid_get (fst p) (snd p) g = Inr FLOOR"])
       (rule collect_floor_cells)
qed

lemma sample_from_subset:
  "sample_from pool k t = (ys, t') \<Longrightarrow> set ys \<subseteq> set pool \<and> length ys \<le> k"
proof (induction k arbitrary: pool t ys t')
  case 0
  then show ?case by simp
next
  case (Suc k)
  show ?case
  proof (cases "pool = []")
    case True
    then show ?thesis using Suc.prems by simp
  next
    case False
    obtain n t1 where d: "draw t = (n, t1)" by (cases "draw t")
    define i where "i = nat (n mod int (length pool))"
    obtain zs t2 where r: "sample_from (take i pool @ drop (Suc i) pool) k t1 = (zs, t2)"
      by (cases "sample_from (take i pool @ drop (Suc i) pool) k t1")
    have ys: "ys = pool ! i # zs" using Suc.prems False d r by (simp add: i_def Let_def)
    have "i < length pool" using False by (simp add: i_def nat_less_iff)
    then have "pool ! i \<in> set pool" by simp
    moreover have "set zs \<subseteq> set pool" "length zs \<le> k"
      using Suc.IH[OF r] set_take_subset[of i pool] set_drop_subset[of "Suc i" pool] by auto
    ultimately show ?thesis using ys by simp
  qed
qed

lemma sample_Inr:
  assumes "sample pop k t = Inr (ys, t')"
  shows "set ys \<subseteq> set pop" and "int (length ys) \<le> k"
proof -
  from assms have k: "0 \<le> k" and s: "sample_from pop (nat k) t = (ys, t')"
    by (auto simp: sample_def split: if_splits)
  show "set ys \<subseteq> set pop" using sample_from_subset[OF s] by simp
  show "int (length ys) \<le> k" using sample_from_subset[OF s] k by linarith
qed

lemma trap_writes_count:
  "for_each (\<lambda>(x, y). grid_set x y TRAP) ps g = Inr g'
   \<Longrightarrow> count_tiles TRAP g' \<le> count_tiles TRAP g + length ps"
proof -
  assume a: "for_each (\<lambda>(x, y). grid_set x y TRAP) ps g = Inr g'"
  have step: "count_tiles TRAP b \<le> count_tiles TRAP a + 1"
    if "(case p of (x, y) \<Rightarrow> grid_set x y TRAP) a = Inr b" for p a b
  proof -
    obtain x y where p: "p = (x, y)" by (cases p)
    with that have "grid_set x y TRAP a = Inr b" by simp
    then obtain old where
      "count_tiles TRAP b + (if old = TRAP then 1 else 0)
       = count_tiles TRAP a + (if TRAP = TRAP then 1 else 0)"
      by (rule grid_set_count)
    then show ?thesis by (simp split: if_splits)
  qed
  show ?thesis using for_each_measure[OF a, where m = "count_tiles TRAP" and c = 1] step by simp
qed

text \<open>Writing a trap on a tile that is floor or trap leaves the walls and the size of the
  grid as they are.\<close>

lemma grid_set_cells:
  assumes "grid_set x y v g = Inr g'"
  shows "length (concat g') = length (concat g)"
proof -
  have "map length g' = map length g" using grid_set_length[OF assms] by simp
  then show ?thesis by (simp add: length_concat)
qed

lemma trap_writes_walls:
  assumes "for_each (\<lambda>(x, y). grid_set x y TRAP) ps g = Inr g'"
    and "\<forall>p \<in> set ps. grid_get (fst p) (snd p) g = Inr FLOOR"
  shows "count_tiles WALL g' = count_tiles WALL g \<and> length (concat g') = length (concat g)"
proof -
  let ?P = "\<lambda>a. count_tiles WALL a = count_tiles WALL g \<and> length (concat a) = length (concat g) \<and>
      (\<forall>p \<in> set ps. grid_get (fst p) (snd p) a = Inr FLOOR
                   \<or> grid_get (fst p) (snd p) a = Inr TRAP)"
  have "?P g'"
    using assms(1)
  proof (rule for_each_invariant[where P = ?P])
    show "?P g" using assms(2) by simp
  next
    fix p a b
    assume p: "p \<in> set ps" and a: "?P a"
      and b: "(case p of (x, y) \<Rightarrow> grid_set x y TRAP) a = Inr b"
    obtain x y where xy: "p = (x, y)" by (cases p)
    with b have w: "grid_set x y TRAP a = Inr b" by simp
    from w obtain old where old: "grid_get x y a = Inr old"
      "count_tiles WALL b + (if old = WALL then 1 else 0)
       = count_tiles WALL a + (if TRAP = WALL then 1 else 0)"
      by (rule grid_set_count)
    have "old = FLOOR \<or> old = TRAP" using a p xy old(1) by auto
    then have 1: "count_tiles WALL b = count_tiles WALL g" using old(2) a by auto
    have 2: "length (concat b) = length (concat g)" using grid_set_cells[OF w] a by simp
    have 3: "grid_get (fst q) (snd q) b = Inr FLOOR \<or> grid_get (fst q) (snd q) b = Inr TRAP"
      if "q \<in> set ps" for q
    proof -
      from a that have "grid_get (fst q) (snd q) a = Inr FLOOR
          \<or> grid_get (fst q) (snd q) a = Inr TRAP" by blast
      then show ?thesis using grid_set_get[OF w] by blast
    qed
    show "?P b" using 1 2 3 by blast
  qed
  then show ?thesis by blast
qed

lemma count_list_two:
  "set xs \<subseteq> {a, b} \<Longrightarrow> a \<noteq> b \<Longrightarrow> length xs = count_list xs a + count_list xs b"
  by (induction xs) auto

lemma count_list_pair_le:
  "a \<noteq> b \<Longrightarrow> count_list xs a + count_list xs b \<le> length xs"
  by (induction xs) auto

lemma add_traps_le_floor:
  assumes "add_traps cfg s = Inr s'" "tiles_in {WALL, FLOOR} (grid s)"
  shows "count_tiles TRAP (grid s') \<le> count_tiles FLOOR (grid s)"
proof -
  from assms(1) obtain floor_tiles trap_tiles t g where
    ft: "for_each (\<lambda>y. for_each (collect_floor (grid s) y) (py_range 0 (width cfg)))
       (py_range 0 (height cfg)) [] = Inr floor_tiles"
    and sm: "sample floor_tiles
       (min (py_int (round_double (round_double (rat_of_nat (length floor_tiles))
                                   * trap_density cfg)))
            (int (length floor_tiles))) (rng s) = Inr (trap_tiles, t)"
    and wr: "for_each (\<lambda>(x, y). grid_set x y TRAP) trap_tiles (grid s) = Inr g"
    and s': "s' = s\<lparr>grid := g, rng := t\<rparr>"
    by (rule add_trapsE)
  have "\<forall>p \<in> set trap_tiles. grid_get (fst p) (snd p) (grid s) = Inr FLOOR"
    using floor_tiles_cells[OF ft] sample_Inr(1)[OF sm] by blast
  then have w: "count_tiles WALL g = count_tiles WALL (grid s)"
    "length (concat g) = length (concat (grid s))"
    using trap_writes_walls[OF wr] by simp_all
  have "length (concat (grid s)) = count_tiles WALL (grid s) + count_tiles FLOOR (grid s)"
    using assms(2) count_list_two[of "concat (grid s)" WALL FLOOR]
    by (simp add: tiles_in_def count_tiles_def)
  moreover have "count_tiles TRAP g + count_tiles WALL g \<le> length (concat g)"
    using count_list_pair_le[of TRAP WALL "concat g"] by (simp add: count_tiles_def)
  ultimately show ?thesis using w s' by simp
qed

lemma py_int_nonneg: "0 \<le> q \<Longrightarrow> py_int q = \<lfloor>q\<rfloor>"
  by (simp add: py_int_def)

lemma layout_stateE:
  assumes "generate_dungeon rt cfg seed_arg = Inr d" "layout_state rt cfg seed_arg = Inr s"
  obtains s5 s6 where "tiles_in {WALL, FLOOR} (grid s)"
    "add_traps cfg s = Inr s5" "add_secret_rooms cfg s5 = Inr s6" "d = export cfg s6"
proof -
  have fc: "floor_closed (tiles_in {WALL, FLOOR})" by (rule floor_closed_tiles) simp
  from assms obtain si where si: "generate_layout rt cfg si = Inr s" "generate rt cfg si = Inr d"
    unfolding layout_state_def generate_dungeon_def by (auto split: sum.splits)
  from si obtain s5 s6 where r: "add_traps cfg s = Inr s5" "add_secret_rooms cfg s5 = Inr s6"
    "d = export cfg s6"
    unfolding generate_def by (auto split: sum.splits)
  from si(1) obtain a1 a2 a3 where q:
    "generate_rooms_bsp cfg
       (si\<lparr>grid := replicate (nat (height cfg)) (replicate (nat (width cfg)) WALL)\<rparr>) = Inr a1"
    "connect_rooms rt cfg a1 = Inr a2" "place_special_rooms cfg a2 = Inr a3"
    "populate_rooms cfg a3 = Inr s"
    unfolding generate_layout_def by (auto split: sum.splits)
  have "tiles_in {WALL, FLOOR}
     (grid (si\<lparr>grid := replicate (nat (height cfg)) (replicate (nat (width cfg)) WALL)\<rparr>))"
    by (simp add: tiles_in_walls)
  then have "tiles_in {WALL, FLOOR} (grid s)" by (rule layout_grid[OF q fc])
  then show thesis using that r by blast
qed

subsection \<open>Placement\<close>

lemma randint_bounds: "randint a b t = Inr (v, t') \<Longrightarrow> a \<le> v \<and> v \<le> b"
proof -
  assume r: "randint a b t = Inr (v, t')"
  then have ab: "a \<le> b" by (auto simp: randint_def split: if_splits)
  from r ab obtain n where v: "v = a + n mod (b - a + 1)"
    by (auto simp: randint_def split: if_splits prod.splits)
  have k: "0 < b - a + 1" using ab by simp
  have "0 \<le> n mod (b - a + 1)" using k by (rule pos_mod_sign)
  moreover have "n mod (b - a + 1) < b - a + 1" using k by (rule pos_mod_bound)
  ultimately show ?thesis using v by linarith
qed

lemma check_room_overlap_iff:
  "check_room_overlap rs x y w h \<longleftrightarrow> (\<exists>room \<in> set rs. overlap_cond room x y w h)"
  by (induction rs) (auto simp: overlap_cond_def)

lemma not_overlap_disjoint:
  assumes "\<not> overlap_cond room x y w h" "room_x r = x" "room_y r = y" "room_width r = w"
    "room_height r = h"
  shows "room_tiles r \<inter> padded_tiles room = {}" and "room_tiles room \<inter> padded_tiles r = {}"
  using assms
  by (auto simp: overlap_cond_def room_tiles_def padded_tiles_def rect_tiles_def)

lemma rooms_apart_append:
  assumes "rooms_apart rs"
    and "\<And>room. room \<in> set rs \<Longrightarrow>
          room_tiles r \<inter> padded_tiles room = {} \<and> room_tiles room \<inter> padded_tiles r = {}"
  shows "rooms_apart (rs @ [r])"
  unfolding rooms_apart_def
proof (intro allI impI)
  fix i j
  assume i: "i < length (rs @ [r])" and j: "j < length (rs @ [r])" and ne: "i \<noteq> j"
  consider "i < length rs" "j < length rs" | "i = length rs" "j < length rs"
    | "i < length rs" "j = length rs"
    using i j ne by (cases "i < length rs"; cases "j < length rs") auto
  then show "room_tiles ((rs @ [r]) ! i) \<inter> padded_tiles ((rs @ [r]) ! j) = {}"
  proof cases
    case 1
    then show ?thesis using assms(1) ne by (simp add: rooms_apart_def nth_append)
  next
    case 2
    then show ?thesis using assms(2)[of "rs ! j"] by (simp add: nth_append)
  next
    case 3
    then show ?thesis using assms(2)[of "rs ! i"] by (simp add: nth_append)
  qed
qed

lemma new_room_fields [simp]:
  "room_id (new_room i ty x y w h) = i" "room_type (new_room i ty x y w h) = ty"
  "room_x (new_room i ty x y w h) = x" "room_y (new_room i ty x y w h) = y"
  "room_width (new_room i ty x y w h) = w" "room_height (new_room i ty x y w h) = h"
  "connections (new_room i ty x y w h) = []" "encounters (new_room i ty x y w h) = []"
  by (simp_all add: new_room_def)

lemma fresh_rooms_append:
  assumes "fresh_rooms cfg rs" "min_room_size cfg \<le> w" "min_room_size cfg \<le> h"
  shows "fresh_rooms cfg (rs @ [new_room (int (length rs)) CORRIDOR x y w h])"
  unfolding fresh_rooms_def
proof (intro allI impI)
  fix i assume "i < length (rs @ [new_room (int (length rs)) CORRIDOR x y w h])"
  then consider "i < length rs" | "i = length rs" by fastforce
  then show "(rs @ [new_room (int (length rs)) CORRIDOR x y w h]) ! i =
       new_room (int i) CORRIDOR (room_x ((rs @ [new_room (int (length rs)) CORRIDOR x y w h]) ! i))
        (room_y ((rs @ [new_room (int (length rs)) CORRIDOR x y w h]) ! i))
        (room_width ((rs @ [new_room (int (length rs)) CORRIDOR x y w h]) ! i))
        (room_height ((rs @ [new_room (int (length rs)) CORRIDOR x y w h]) ! i)) \<and>
       min_room_size cfg \<le> room_width ((rs @ [new_room (int (length rs)) CORRIDOR x y w h]) ! i) \<and>
       min_room_size cfg \<le> room_height ((rs @ [new_room (int (length rs)) CORRIDOR x y w h]) ! i)"
  proof cases
    case 1
    then show ?thesis using assms(1) by (simp add: fresh_rooms_def nth_append)
  next
    case 2
    then show ?thesis using assms(2,3) by (simp add: nth_append)
  qed
qed

text \<open>What placement establishes.\<close>

lemma place_trial_rooms:
  assumes "place_trial cfg s = Inr s'"
    and "fresh_rooms cfg (rooms s)" "next_room_id s = int (length (rooms s))"
    and "rooms_apart (rooms s)"
  shows "fresh_rooms cfg (rooms s') \<and> next_room_id s' = int (length (rooms s')) \<and>
         rooms_apart (rooms s')"
  using assms(1)
proof (cases rule: place_trialE)
  case (placed w h x y t1 t2 t3 t4 g)
  let ?r = "new_room (next_room_id s) CORRIDOR x y w h"
  have wh: "min_room_size cfg \<le> w" "min_room_size cfg \<le> h"
    using randint_bounds[OF placed(1)] randint_bounds[OF placed(2)] by simp_all
  have f: "fresh_rooms cfg (rooms s @ [?r])"
    using fresh_rooms_append[OF assms(2) wh] assms(3) by simp
  have "\<And>room. room \<in> set (rooms s) \<Longrightarrow> \<not> overlap_cond room x y w h"
    using placed(5) by (simp add: check_room_overlap_iff)
  then have a: "rooms_apart (rooms s @ [?r])"
    using not_overlap_disjoint[where r = ?r and x = x and y = y and w = w and h = h]
    by (intro rooms_apart_append[OF assms(4)]) simp
  show ?thesis using f a assms(3) placed(7) by simp
next
  case (rejected t)
  then show ?thesis using assms by simp
qed

lemma place_loop_rooms:
  "place_loop cfg n k s = Inr s' \<Longrightarrow>
   fresh_rooms cfg (rooms s) \<Longrightarrow> next_room_id s = int (length (rooms s)) \<Longrightarrow>
   rooms_apart (rooms s) \<Longrightarrow>
   fresh_rooms cfg (rooms s') \<and> next_room_id s' = int (length (rooms s')) \<and>
   rooms_apart (rooms s')"
proof (induction k arbitrary: s)
  case 0
  then show ?case by simp
next
  case (Suc k)
  from Suc.prems(1) show ?case
  proof (cases rule: place_loopE)
    case stop
    then show ?thesis using Suc.prems by simp
  next
    case (trial s1)
    have "fresh_rooms cfg (rooms s1) \<and> next_room_id s1 = int (length (rooms s1)) \<and>
         rooms_apart (rooms s1)"
      using place_trial_rooms[OF trial(1) Suc.prems(2,3,4)] .
    then show ?thesis using Suc.IH[OF trial(2)] by blast
  qed
qed

lemma generate_rooms_bsp_rooms:
  assumes "generate_rooms_bsp cfg s = Inr s'" "rooms s = []" "next_room_id s = 0"
  shows "fresh_rooms cfg (rooms s') \<and> next_room_id s' = int (length (rooms s')) \<and>
         rooms_apart (rooms s')"
proof -
  from assms(1) obtain n t where "place_loop cfg n (nat (n * 3)) (s\<lparr>rng := t\<rparr>) = Inr s'"
    by (rule generate_rooms_bspE)
  then show ?thesis
    using place_loop_rooms[of cfg n _ "s\<lparr>rng := t\<rparr>" s'] assms(2,3)
    by (simp add: fresh_rooms_def rooms_apart_def)
qed

subsection \<open>What the later phases leave of the rooms\<close>

lemma map_update_same: "f v = f (xs ! i) \<Longrightarrow> map f (xs[i := v]) = map f xs"
  by (induction xs arbitrary: i) (auto split: nat.splits)

lemma without_connections_add [simp]:
  "without_connections (add_connection c r) = without_connections r"
  by (simp add: without_connections_def add_connection_def)

lemma link_rooms_frame:
  assumes "link_rooms cfg i j ci cj s = Inr s'"
  shows "map without_connections (rooms s') = map without_connections (rooms s)"
proof -
  from assms obtain g t where
    s': "s' = s\<lparr>rooms := ((rooms s)[i := add_connection cj (rooms s ! i)])
                  [j := add_connection ci (((rooms s)[i := add_connection cj (rooms s ! i)]) ! j)],
            grid := g, rng := t\<rparr>"
    by (rule link_roomsE)
  show ?thesis unfolding s' by (simp add: map_update_same)
qed

lemma spanning_loop_frame:
  "spanning_loop rt cfg conn unconn s = Inr s'
   \<Longrightarrow> map without_connections (rooms s') = map without_connections (rooms s)"
proof (induction rt cfg conn unconn s rule: spanning_loop.induct)
  case (1 rt cfg conn unconn s)
  show ?case
  proof (cases "unconn = []")
    case True
    then show ?thesis using "1.prems" by (simp add: spanning_loop_Nil)
  next
    case False
    from "1.prems"(1) False obtain bd bp s1 where
      f: "find_best_pair (rooms s) (set_iter rt conn) (set_iter rt unconn) = Inr (bd, bp)"
      and l: "link_rooms cfg (fst bp) (snd bp) (int (fst bp)) (int (snd bp)) s = Inr s1"
      and m: "snd bp \<in> set unconn"
      and r: "spanning_loop rt cfg (set_add (snd bp) conn) (removeAll (snd bp) unconn) s1 = Inr s'"
      by (rule spanning_loopE)
    show ?thesis using "1.IH"[OF False f refl l m r] link_rooms_frame[OF l] by simp
  qed
qed

lemma extra_connection_frame:
  assumes "extra_connection cfg s = Inr s'"
  shows "map without_connections (rooms s') = map without_connections (rooms s)"
  using assms
proof (cases rule: extra_connectionE)
  case (linked i1 i2 t)
  then show ?thesis using link_rooms_frame[OF linked(3)] by simp
next
  case (skipped t)
  then show ?thesis by simp
qed

lemma connect_rooms_frame:
  assumes "connect_rooms rt cfg s = Inr s'"
  shows "map without_connections (rooms s') = map without_connections (rooms s)"
  using assms
proof (cases rule: connect_roomsE)
  case few
  then show ?thesis by simp
next
  case (many s1 n t)
  have "map without_connections (rooms (s1\<lparr>rng := t\<rparr>)) = map without_connections (rooms s)"
    using spanning_loop_frame[OF many(2)] by simp
  with many(4) show ?thesis
    by (rule for_each_invariant[where
          P = "\<lambda>a. map without_connections (rooms a) = map without_connections (rooms s)"])
       (simp add: extra_connection_frame)
qed

lemma without_type_set [simp]: "without_type (set_room_type ty r) = without_type r"
  by (simp add: without_type_def set_room_type_def)

lemma place_special_rooms_frame:
  assumes "place_special_rooms cfg s = Inr s'"
  shows "map without_type (rooms s') = map without_type (rooms s)"
  using assms
proof (cases rule: place_special_roomsE)
  case none
  then show ?thesis by simp
next
  case (some ei bi)
  show ?thesis unfolding some(4) by (simp add: map_update_same)
qed

text \<open>A field that a projection keeps is the same in both lists.\<close>

lemma map_through:
  assumes "map p xs' = map p xs" and "\<And>x. f x = g (p x)"
  shows "map f xs' = map f xs"
proof -
  have "map f xs' = map g (map p xs')" using assms(2) by simp
  also have "\<dots> = map g (map p xs)" using assms(1) by simp
  also have "\<dots> = map f xs" using assms(2) by simp
  finally show ?thesis .
qed

lemma without_connections_keeps:
  assumes "map without_connections rs' = map without_connections rs"
  shows "map room_geom rs' = map room_geom rs" "map room_type rs' = map room_type rs"
    "map encounters rs' = map encounters rs"
proof -
  show "map room_geom rs' = map room_geom rs"
    by (rule map_through[OF assms, where g = room_geom])
       (simp add: room_geom_def without_connections_def)
  show "map room_type rs' = map room_type rs"
    by (rule map_through[OF assms, where g = room_type]) (simp add: without_connections_def)
  show "map encounters rs' = map encounters rs"
    by (rule map_through[OF assms, where g = encounters]) (simp add: without_connections_def)
qed

lemma without_type_keeps:
  assumes "map without_type rs' = map without_type rs"
  shows "map room_geom rs' = map room_geom rs" "map connections rs' = map connections rs"
    "map encounters rs' = map encounters rs"
proof -
  show "map room_geom rs' = map room_geom rs"
    by (rule map_through[OF assms, where g = room_geom])
       (simp add: room_geom_def without_type_def)
  show "map connections rs' = map connections rs"
    by (rule map_through[OF assms, where g = connections]) (simp add: without_type_def)
  show "map encounters rs' = map encounters rs"
    by (rule map_through[OF assms, where g = encounters]) (simp add: without_type_def)
qed

lemma map_eq_nth:
  assumes "map f xs' = map f xs"
  shows "length xs' = length xs" and "i < length xs \<Longrightarrow> f (xs' ! i) = f (xs ! i)"
proof -
  show l: "length xs' = length xs" using assms by (rule map_eq_imp_length_eq)
  show "f (xs' ! i) = f (xs ! i)" if "i < length xs"
  proof -
    have "f (xs' ! i) = map f xs' ! i" using that l by simp
    also have "\<dots> = map f xs ! i" using assms by simp
    also have "\<dots> = f (xs ! i)" using that by simp
    finally show ?thesis .
  qed
qed

lemma room_geom_tiles:
  "room_geom r' = room_geom r \<Longrightarrow> room_tiles r' = room_tiles r \<and> padded_tiles r' = padded_tiles r"
  by (simp add: room_geom_def room_tiles_def padded_tiles_def)

lemma rooms_apart_geom:
  assumes "map room_geom rs' = map room_geom rs" "rooms_apart rs"
  shows "rooms_apart rs'"
  unfolding rooms_apart_def
proof (intro allI impI)
  fix i j assume i: "i < length rs'" and j: "j < length rs'" and ne: "i \<noteq> j"
  have l: "length rs' = length rs" using map_eq_nth(1)[OF assms(1)] .
  have "room_geom (rs' ! i) = room_geom (rs ! i)" "room_geom (rs' ! j) = room_geom (rs ! j)"
    using map_eq_nth(2)[OF assms(1)] i j l by simp_all
  then have "room_tiles (rs' ! i) = room_tiles (rs ! i)"
    "padded_tiles (rs' ! j) = padded_tiles (rs ! j)"
    using room_geom_tiles[of "rs' ! i" "rs ! i"] room_geom_tiles[of "rs' ! j" "rs ! j"]
    by blast+
  moreover have "room_tiles (rs ! i) \<inter> padded_tiles (rs ! j) = {}"
    using assms(2) i j ne l by (simp add: rooms_apart_def)
  ultimately show "room_tiles (rs' ! i) \<inter> padded_tiles (rs' ! j) = {}" by simp
qed

subsection \<open>Population\<close>

lemma for_rooms_all2:
  "for_rooms body rs t = Inr (rs', t')
   \<Longrightarrow> list_all2 (\<lambda>r r'. \<exists>a b. body r a = Inr (r', b)) rs rs'"
proof (induction rs arbitrary: t rs' t')
  case Nil
  then show ?case by simp
next
  case (Cons r rs)
  from Cons.prems obtain r1 t1 rest t2 where
    b: "body r t = Inr (r1, t1)" and f: "for_rooms body rs t1 = Inr (rest, t2)"
    and e: "rs' = r1 # rest"
    by (auto split: sum.splits prod.splits)
  show ?case unfolding e using b Cons.IH[OF f] by auto
qed

lemma encounter_loop_inside:
  "encounter_loop cfg room k t = Inr (es, t') \<Longrightarrow> list_all (in_interior room) es"
proof (induction k arbitrary: t es t')
  case 0
  then show ?case by simp
next
  case (Suc k)
  from Suc.prems obtain monster t1 px t2 py t3 rest where
    x: "randint (room_x room + 1) (room_x room + room_width room - 2) t1 = Inr (px, t2)"
    and y: "randint (room_y room + 1) (room_y room + room_height room - 2) t2 = Inr (py, t3)"
    and r: "encounter_loop cfg room k t3 = Inr (rest, t')"
    and e: "es = MonsterEnc (dict_get monster ''id'' (JStr ''generic_monster''))
                 (dict_get monster ''level'' (JInt 1)) px py # rest"
    by (auto split: sum.splits prod.splits)
  show ?case unfolding e using randint_bounds[OF x] randint_bounds[OF y] Suc.IH[OF r] by simp
qed

lemma generate_encounters_inside:
  "generate_encounters cfg room t = Inr (es, t') \<Longrightarrow> list_all (in_interior room) es"
  unfolding generate_encounters_def
  by (auto split: if_splits sum.splits prod.splits dest: encounter_loop_inside)

lemma in_interior_geom:
  "room_geom r' = room_geom r \<Longrightarrow> in_interior r' e = in_interior r e"
  by (cases e) (simp_all add: room_geom_def)

lemma assign_roleE:
  assumes "assign_role cfg room t = Inr (room1, t1)"
  obtains (combat) es ta where "generate_encounters cfg room ta = Inr (es, t1)"
      "room1 = room\<lparr>room_type := COMBAT, encounters := es\<rparr>"
  | (puzzle) p where "room1 = room\<lparr>room_type := PUZZLE, puzzle := Some p\<rparr>"
  | (treasure) l where "room1 = room\<lparr>room_type := TREASURE, loot := l\<rparr>"
  | (safe) "room1 = room\<lparr>room_type := SAFE\<rparr>"
  using assms unfolding assign_role_def
  by (simp split: prod.splits if_splits sum.splits) blast+

lemma assign_role_populated:
  assumes "assign_role cfg room t = Inr (room1, t1)"
  shows "room_geom room1 = room_geom room \<and> connections room1 = connections room \<and>
         room_type room1 \<in> {COMBAT, PUZZLE, TREASURE, SAFE} \<and>
         (encounters room = [] \<longrightarrow> encounters_inside room1)"
  using assms
proof (cases rule: assign_roleE)
  case (combat es ta)
  have "in_interior room1 e = in_interior room e" for e
    using in_interior_geom[of room1 room e] by (simp add: combat(2) room_geom_def)
  then have "list_all (in_interior room1) es"
    using generate_encounters_inside[OF combat(1)] by (simp add: list_all_iff)
  then show ?thesis by (simp add: combat(2) room_geom_def encounters_inside_def)
next
  case (puzzle p)
  then show ?thesis by (simp add: room_geom_def encounters_inside_def)
next
  case (treasure l)
  then show ?thesis by (simp add: room_geom_def encounters_inside_def)
next
  case safe
  then show ?thesis by (simp add: room_geom_def encounters_inside_def)
qed

lemma populate_roomE:
  assumes "populate_room cfg room t = Inr (room', t')"
  obtains (special) "room_type room = ENTRANCE \<or> room_type room = BOSS" "room' = room"
  | (rolled) room1 ta tb where "room_type room \<noteq> ENTRANCE" "room_type room \<noteq> BOSS"
      "assign_role cfg room ta = Inr (room1, tb)" "room' = room1 \<or> (\<exists>l. room' = room1\<lparr>loot := l\<rparr>)"
  using assms unfolding populate_room_def
  by (simp split: prod.splits if_splits sum.splits) blast+

lemma populate_room_first:
  assumes "populate_room cfg room t = Inr (room', t')"
  shows "room_geom room' = room_geom room \<and> connections room' = connections room \<and>
         (room_type room' = ENTRANCE \<longleftrightarrow> room_type room = ENTRANCE) \<and>
         (room_type room' = BOSS \<longleftrightarrow> room_type room = BOSS) \<and>
         (encounters room = [] \<longrightarrow> encounters_inside room')"
  using assms
proof (cases rule: populate_roomE)
  case special
  then show ?thesis by (auto simp: encounters_inside_def)
next
  case (rolled room1 ta tb)
  have a: "room_geom room1 = room_geom room \<and> connections room1 = connections room \<and>
         room_type room1 \<in> {COMBAT, PUZZLE, TREASURE, SAFE} \<and>
         (encounters room = [] \<longrightarrow> encounters_inside room1)"
    using assign_role_populated[OF rolled(3)] .
  have g: "room_geom room' = room_geom room1 \<and> connections room' = connections room1 \<and>
      room_type room' = room_type room1 \<and> encounters room' = encounters room1"
    using rolled(4) by (auto simp: room_geom_def)
  then have "in_interior room' e = in_interior room1 e" for e
    using in_interior_geom[of room' room1 e] by simp
  then have b: "room_geom room' = room_geom room1 \<and> connections room' = connections room1 \<and>
      room_type room' = room_type room1 \<and> encounters_inside room' = encounters_inside room1"
    using g by (simp add: encounters_inside_def list_all_iff)
  show ?thesis using a b rolled(1,2) by auto
qed

lemma boss_encounter_inside: "list_all (in_interior r) (generate_boss_encounter cfg)"
  by (simp add: generate_boss_encounter_def split: option.splits)

lemma populate_boss_second:
  assumes "populate_boss cfg room t = Inr (room', t')"
  shows "room_geom room' = room_geom room \<and> connections room' = connections room \<and>
         room_type room' = room_type room \<and>
         (encounters_inside room \<longrightarrow> encounters_inside room') \<and>
         (room_type room' = BOSS \<longrightarrow> encounters room' = generate_boss_encounter cfg)"
proof (cases "room_type room = BOSS")
  case True
  with assms obtain l where "room' = room\<lparr>encounters := generate_boss_encounter cfg, loot := l\<rparr>"
    unfolding populate_boss_def by (auto split: sum.splits prod.splits)
  then show ?thesis
    using boss_encounter_inside[of room' cfg] by (simp add: room_geom_def encounters_inside_def)
next
  case False
  with assms have "room' = room" unfolding populate_boss_def by simp
  then show ?thesis using False by simp
qed

lemma populate_rooms_populated:
  assumes "populate_rooms cfg s = Inr s'"
  shows "list_all2 (populated cfg) (rooms s) (rooms s')"
proof -
  from assms obtain rs1 t1 rs2 t2 where
    a: "for_rooms (populate_room cfg) (rooms s) (rng s) = Inr (rs1, t1)"
    and b: "for_rooms (populate_boss cfg) rs1 t1 = Inr (rs2, t2)"
    and s': "s' = s\<lparr>rooms := rs2, rng := t2\<rparr>"
    by (rule populate_roomsE)
  have 1: "list_all2 (\<lambda>r r'. \<exists>a b. populate_room cfg r a = Inr (r', b)) (rooms s) rs1"
    using for_rooms_all2[OF a] .
  have 2: "list_all2 (\<lambda>r r'. \<exists>a b. populate_boss cfg r a = Inr (r', b)) rs1 rs2"
    using for_rooms_all2[OF b] .
  have "list_all2 (populated cfg) (rooms s) rs2"
  proof (rule list_all2_trans[OF _ 1 2])
    fix r r1 r2
    assume "\<exists>a b. populate_room cfg r a = Inr (r1, b)" "\<exists>a b. populate_boss cfg r1 a = Inr (r2, b)"
    then obtain a b c d where p: "populate_room cfg r a = Inr (r1, b)"
      and q: "populate_boss cfg r1 c = Inr (r2, d)" by blast
    show "populated cfg r r2"
      using populate_room_first[OF p] populate_boss_second[OF q]
      unfolding populated_def by auto
  qed
  then show ?thesis by (simp add: s')
qed

lemma add_traps_rooms: "add_traps cfg s = Inr s' \<Longrightarrow> rooms s' = rooms s"
  by (erule add_trapsE) simp

subsection \<open>The secret room\<close>

lemma first_fit_Some:
  "first_fit cfg rs w h ps = Some (x, y) \<Longrightarrow> \<not> check_room_overlap rs x y w h"
  by (induction ps) (auto split: if_splits)

lemma secret_loop_rooms:
  "secret_loop cfg k s = Inr s' \<Longrightarrow>
   rooms s' = rooms s \<or>
   (\<exists>x y w h l. \<not> check_room_overlap (rooms s) x y w h \<and>
      rooms s' = rooms s @ [(new_room (next_room_id s) SECRET x y w h)\<lparr>loot := l\<rparr>])"
proof (induction k arbitrary: s)
  case 0
  then show ?case by simp
next
  case (Suc k)
  from Suc.prems show ?case
  proof (cases rule: secret_loopE)
    case (fit base_room t1 w h x y t t2)
    from fit(3) obtain g l t' where
      "s' = (s\<lparr>rng := t\<rparr>)\<lparr>rooms := rooms (s\<lparr>rng := t\<rparr>) @
              [(new_room (next_room_id (s\<lparr>rng := t\<rparr>)) SECRET x y w h)\<lparr>loot := l\<rparr>],
            grid := g, next_room_id := next_room_id (s\<lparr>rng := t\<rparr>) + 1, rng := t'\<rparr>"
      by (rule place_secretE)
    then have "rooms s' = rooms s @ [(new_room (next_room_id s) SECRET x y w h)\<lparr>loot := l\<rparr>]"
      by simp
    then show ?thesis using first_fit_Some[OF fit(2)] by blast
  next
    case (retry t)
    show ?thesis using Suc.IH[OF retry] by simp
  qed
qed

lemma add_secret_rooms_rooms:
  assumes "add_secret_rooms cfg s = Inr s'"
  shows "rooms s' = rooms s \<or>
   (\<exists>x y w h l. \<not> check_room_overlap (rooms s) x y w h \<and>
      rooms s' = rooms s @ [(new_room (next_room_id s) SECRET x y w h)\<lparr>loot := l\<rparr>])"
  using assms
proof (cases rule: add_secret_roomsE)
  case (skip t)
  then show ?thesis by simp
next
  case (attempt t)
  show ?thesis using secret_loop_rooms[OF attempt] by simp
qed

subsection \<open>The rooms of a generated dungeon\<close>

lemma fresh_rooms_fields:
  assumes "fresh_rooms cfg rs" "r \<in> set rs"
  shows "encounters r = []" "room_type r = CORRIDOR" "connections r = []"
    "min_room_size cfg \<le> room_width r" "min_room_size cfg \<le> room_height r"
proof -
  from assms(2) obtain i where i: "i < length rs" "r = rs ! i" by (auto simp: in_set_conv_nth)
  then have e: "r = new_room (int i) CORRIDOR (room_x r) (room_y r) (room_width r) (room_height r)"
    and m: "min_room_size cfg \<le> room_width r" "min_room_size cfg \<le> room_height r"
    using assms(1) by (simp_all add: fresh_rooms_def)
  show "encounters r = []" by (subst e) simp
  show "room_type r = CORRIDOR" by (subst e) simp
  show "connections r = []" by (subst e) simp
  show "min_room_size cfg \<le> room_width r" "min_room_size cfg \<le> room_height r" by fact+
qed

lemma map_eq_set:
  assumes "map f xs' = map f xs" "x' \<in> set xs'"
  obtains x where "x \<in> set xs" "f x' = f x"
proof -
  have "f x' \<in> set (map f xs')" using assms(2) by simp
  then have "f x' \<in> set (map f xs)" using assms(1) by simp
  then show thesis using that by auto
qed

lemma populated_geom:
  "list_all2 (populated cfg) rs rs' \<Longrightarrow> map room_geom rs' = map room_geom rs"
  by (induction rule: list_all2_induct) (simp_all add: populated_def)

lemma list_all2_right:
  assumes "list_all2 R xs ys" "y \<in> set ys"
  obtains x where "x \<in> set xs" "R x y"
proof -
  from assms(2) obtain i where i: "i < length ys" "y = ys ! i" by (auto simp: in_set_conv_nth)
  have l: "length xs = length ys" using assms(1) by (rule list_all2_lengthD)
  have "R (xs ! i) y" using list_all2_nthD2[OF assms(1) i(1)] i(2) by simp
  moreover have "xs ! i \<in> set xs" using i(1) l by simp
  ultimately show thesis using that by blast
qed

text \<open>The phases of a successful run, and what each leaves of the room list.\<close>

lemma generate_dungeon_rooms:
  assumes "generate_dungeon rt cfg seed_arg = Inr d"
  obtains s1 s2 s3 and s4 :: gen_state where
    "fresh_rooms cfg (rooms s1)" "rooms_apart (rooms s1)"
    "connect_rooms rt cfg s1 = Inr s2" "place_special_rooms cfg s2 = Inr s3"
    "list_all2 (populated cfg) (rooms s3) (rooms s4)"
    "d_rooms d = rooms s4 \<or>
     (\<exists>x y w h l. \<not> check_room_overlap (rooms s4) x y w h \<and>
        d_rooms d = rooms s4 @ [(new_room (next_room_id s4) SECRET x y w h)\<lparr>loot := l\<rparr>])"
proof -
  from assms obtain s0 s1 s2 s3 s4 s5 s6 where
    i: "rooms s0 = []" "next_room_id s0 = 0"
    and p: "generate_rooms_bsp cfg s0 = Inr s1" "connect_rooms rt cfg s1 = Inr s2"
      "place_special_rooms cfg s2 = Inr s3" "populate_rooms cfg s3 = Inr s4"
    and t: "add_traps cfg s4 = Inr s5" and sr: "add_secret_rooms cfg s5 = Inr s6"
    and d: "d = export cfg s6"
    by (rule generate_dungeonE)
  have 1: "fresh_rooms cfg (rooms s1)" "rooms_apart (rooms s1)"
    using generate_rooms_bsp_rooms[OF p(1) i] by simp_all
  have 2: "list_all2 (populated cfg) (rooms s3) (rooms s4)"
    using populate_rooms_populated[OF p(4)] .
  have 5: "rooms s5 = rooms s4" "next_room_id s5 = next_room_id s4"
    using t by (auto elim: add_trapsE)
  have "d_rooms d = rooms s6" by (simp add: d export_def)
  then have 3: "d_rooms d = rooms s4 \<or>
     (\<exists>x y w h l. \<not> check_room_overlap (rooms s4) x y w h \<and>
        d_rooms d = rooms s4 @ [(new_room (next_room_id s4) SECRET x y w h)\<lparr>loot := l\<rparr>])"
    using add_secret_rooms_rooms[OF sr] 5 by simp
  show thesis using that[OF 1(1) 1(2) p(2) p(3) 2 3] .
qed

lemma layout_geom:
  assumes "connect_rooms rt cfg s1 = Inr s2" "place_special_rooms cfg s2 = Inr s3"
    "list_all2 (populated cfg) (rooms s3) (rooms s4)"
  shows "map room_geom (rooms s4) = map room_geom (rooms s1)"
  using without_connections_keeps(1)[OF connect_rooms_frame[OF assms(1)]]
    without_type_keeps(1)[OF place_special_rooms_frame[OF assms(2)]]
    populated_geom[OF assms(3)]
  by simp

text \<open>
  C1, as the code has it. For two distinct rooms of a generated dungeon, the secret room
  included, the rectangle of one is disjoint from the rectangle of the other expanded by
  two tiles on all sides: the rooms are at least two tiles apart.
\<close>

theorem rooms_two_tiles_apart:
  assumes "generate_dungeon rt cfg seed_arg = Inr d"
    and "i < length (d_rooms d)" and "j < length (d_rooms d)" and "i \<noteq> j"
  shows "room_tiles (d_rooms d ! i) \<inter> padded_tiles (d_rooms d ! j) = {}"
proof -
  from assms(1) obtain s1 s2 s3 and s4 :: gen_state where
    "fresh_rooms cfg (rooms s1)"
    and a: "rooms_apart (rooms s1)"
    and c: "connect_rooms rt cfg s1 = Inr s2" "place_special_rooms cfg s2 = Inr s3"
      "list_all2 (populated cfg) (rooms s3) (rooms s4)"
    and f: "d_rooms d = rooms s4 \<or>
     (\<exists>x y w h l. \<not> check_room_overlap (rooms s4) x y w h \<and>
        d_rooms d = rooms s4 @ [(new_room (next_room_id s4) SECRET x y w h)\<lparr>loot := l\<rparr>])"
    by (rule generate_dungeon_rooms)
  have 4: "rooms_apart (rooms s4)" using rooms_apart_geom[OF layout_geom[OF c] a] .
  have "rooms_apart (d_rooms d)"
  proof -
    from f consider "d_rooms d = rooms s4"
      | x y w h l where "\<not> check_room_overlap (rooms s4) x y w h"
        "d_rooms d = rooms s4 @ [(new_room (next_room_id s4) SECRET x y w h)\<lparr>loot := l\<rparr>]"
      by blast
    then show ?thesis
    proof cases
      case 1
      then show ?thesis using 4 by simp
    next
      case 2
      let ?r = "(new_room (next_room_id s4) SECRET x y w h)\<lparr>loot := l\<rparr>"
      have "\<And>room. room \<in> set (rooms s4) \<Longrightarrow> \<not> overlap_cond room x y w h"
        using 2(1) by (simp add: check_room_overlap_iff)
      then have "rooms_apart (rooms s4 @ [?r])"
        using not_overlap_disjoint[where r = ?r and x = x and y = y and w = w and h = h]
        by (intro rooms_apart_append[OF 4]) simp
      then show ?thesis using 2(2) by simp
    qed
  qed
  then show ?thesis using assms(2,3,4) by (simp add: rooms_apart_def)
qed

theorem rooms_two_tiles_apart_witness:
  "generate_dungeon demo_runtime demo_config (Some 42) = Inr (demo_dungeon []) \<and>
   0 < length (d_rooms (demo_dungeon [])) \<and> 1 < length (d_rooms (demo_dungeon [])) \<and>
   (0::nat) \<noteq> 1 \<and>
   room_tiles (d_rooms (demo_dungeon []) ! 0) \<inter> padded_tiles (d_rooms (demo_dungeon []) ! 1) = {}"
proof -
  have l: "0 < length (d_rooms (demo_dungeon []))" "1 < length (d_rooms (demo_dungeon []))"
    by (simp_all add: demo_dungeon_def demo_rooms_def)
  show ?thesis
    using rooms_two_tiles_apart[OF demo_run l] demo_run l by simp
qed

text \<open>
  C1, as the claim states it, fails: on the demonstration run rooms 0 and 1 are two tiles
  apart, and the tile (6, 2) between them lies in both padded rectangles.
\<close>

theorem padded_rectangles_overlap:
  "generate_dungeon demo_runtime demo_config (Some 42) = Inr (demo_dungeon []) \<and>
   (6, 2) \<in> padded_tiles (d_rooms (demo_dungeon []) ! 0)
           \<inter> padded_tiles (d_rooms (demo_dungeon []) ! 1)"
  using demo_run
  by (simp add: demo_dungeon_def demo_rooms_def padded_tiles_def rect_tiles_def)

text \<open>
  C8, as the code has it. Every boss room of a generated dungeon has the encounter list
  \<^verbatim>\<open>_generate_boss_encounter\<close> returns: one boss encounter built from the boss descriptor
  (identity, level and mechanics defaulting to \<^verbatim>\<open>dungeon_boss\<close>, 100 and the empty list)
  when a non-empty descriptor is configured, and no encounter at all otherwise.
\<close>

theorem boss_room_encounters:
  assumes "generate_dungeon rt cfg seed_arg = Inr d"
    and "r \<in> set (d_rooms d)" and "room_type r = BOSS"
  shows "encounters r =
    (case boss_config cfg of
       None \<Rightarrow> []
     | Some bc \<Rightarrow>
         if bc \<noteq> [] then
           [BossEnc (dict_get bc ''id'' (JStr ''dungeon_boss''))
              (dict_get bc ''level'' (JInt 100))
              (dict_get bc ''mechanics'' (JList []))]
         else [])"
proof -
  from assms(1) obtain s1 s2 s3 and s4 :: gen_state where
    "fresh_rooms cfg (rooms s1)" "rooms_apart (rooms s1)"
    "connect_rooms rt cfg s1 = Inr s2" "place_special_rooms cfg s2 = Inr s3"
    and p: "list_all2 (populated cfg) (rooms s3) (rooms s4)"
    and f: "d_rooms d = rooms s4 \<or>
     (\<exists>x y w h l. \<not> check_room_overlap (rooms s4) x y w h \<and>
        d_rooms d = rooms s4 @ [(new_room (next_room_id s4) SECRET x y w h)\<lparr>loot := l\<rparr>])"
    by (rule generate_dungeon_rooms)
  have m: "r \<in> set (rooms s4)" using f assms(2,3) by auto
  obtain r0 where "populated cfg r0 r" by (rule list_all2_right[OF p m])
  then have "encounters r = generate_boss_encounter cfg"
    using assms(3) by (simp add: populated_def)
  then show ?thesis by (simp add: generate_boss_encounter_def)
qed

lemma demo_boss_run:
  "generate_dungeon demo_runtime (demo_config\<lparr>boss_config := Some demo_boss_config\<rparr>) (Some 42)
   = Inr (demo_dungeon [BossEnc (JStr ''cave_horror'') (JInt 80)
                          (JList [''aoe_attack'', ''summon_adds''])])"
  by code_simp

theorem boss_room_encounters_witness:
  "generate_dungeon demo_runtime (demo_config\<lparr>boss_config := Some demo_boss_config\<rparr>) (Some 42)
   = Inr (demo_dungeon [BossEnc (JStr ''cave_horror'') (JInt 80)
                          (JList [''aoe_attack'', ''summon_adds''])]) \<and>
   demo_rooms [BossEnc (JStr ''cave_horror'') (JInt 80) (JList [''aoe_attack'', ''summon_adds''])] ! 3
     \<in> set (d_rooms (demo_dungeon [BossEnc (JStr ''cave_horror'') (JInt 80)
                          (JList [''aoe_attack'', ''summon_adds''])])) \<and>
   room_type (demo_rooms [BossEnc (JStr ''cave_horror'') (JInt 80)
                          (JList [''aoe_attack'', ''summon_adds''])] ! 3) = BOSS \<and>
   encounters (demo_rooms [BossEnc (JStr ''cave_horror'') (JInt 80)
                          (JList [''aoe_attack'', ''summon_adds''])] ! 3)
     = [BossEnc (JStr ''cave_horror'') (JInt 80) (JList [''aoe_attack'', ''summon_adds''])]"
proof -
  let ?b = "[BossEnc (JStr ''cave_horror'') (JInt 80) (JList [''aoe_attack'', ''summon_adds''])]"
  have m: "demo_rooms ?b ! 3 \<in> set (d_rooms (demo_dungeon ?b))"
    by (simp add: demo_dungeon_def demo_rooms_def)
  have t: "room_type (demo_rooms ?b ! 3) = BOSS" by (simp add: demo_rooms_def)
  show ?thesis
    using boss_room_encounters[OF demo_boss_run m t] demo_boss_run m t
    by (simp add: demo_boss_config_def dict_get_def)
qed

text \<open>
  C8, as the claim states it, fails: the demonstration configuration has no boss
  descriptor, and the boss room of its dungeon has an empty encounter list.
\<close>

theorem boss_room_without_encounter:
  "boss_config demo_config = None \<and>
   generate_dungeon demo_runtime demo_config (Some 42) = Inr (demo_dungeon []) \<and>
   map room_id (boss_rooms (d_rooms (demo_dungeon []))) = [3] \<and>
   map encounters (boss_rooms (d_rooms (demo_dungeon []))) = [[]]"
  using demo_run
  by (simp add: demo_config_def demo_dungeon_def demo_rooms_def boss_rooms_def)

text \<open>
  C9. Every encounter of a generated dungeon that has a position lies in the interior of
  the room that owns it: \<open>x\<close> in \<open>[room.x + 1, room.x + width - 2]\<close> and \<open>y\<close> in
  \<open>[room.y + 1, room.y + height - 2]\<close>. (A room too small to have an interior makes
  \<^verbatim>\<open>randint\<close> raise, so such a run generates no dungeon.)
\<close>

theorem encounter_positions_inside:
  assumes "generate_dungeon rt cfg seed_arg = Inr d"
    and "r \<in> set (d_rooms d)" and "MonsterEnc m l px py \<in> set (encounters r)"
  shows "room_x r + 1 \<le> px \<and> px \<le> room_x r + room_width r - 2 \<and>
         room_y r + 1 \<le> py \<and> py \<le> room_y r + room_height r - 2"
proof -
  from assms(1) obtain s1 s2 s3 and s4 :: gen_state where
    fr: "fresh_rooms cfg (rooms s1)" and "rooms_apart (rooms s1)"
    and c: "connect_rooms rt cfg s1 = Inr s2" "place_special_rooms cfg s2 = Inr s3"
    and p: "list_all2 (populated cfg) (rooms s3) (rooms s4)"
    and f: "d_rooms d = rooms s4 \<or>
     (\<exists>x y w h l. \<not> check_room_overlap (rooms s4) x y w h \<and>
        d_rooms d = rooms s4 @ [(new_room (next_room_id s4) SECRET x y w h)\<lparr>loot := l\<rparr>])"
    by (rule generate_dungeon_rooms)
  have e3: "map encounters (rooms s3) = map encounters (rooms s1)"
    using without_connections_keeps(3)[OF connect_rooms_frame[OF c(1)]]
      without_type_keeps(3)[OF place_special_rooms_frame[OF c(2)]] by simp
  have m: "r \<in> set (rooms s4)" using f assms(2,3) by auto
  obtain r0 where r0: "r0 \<in> set (rooms s3)" "populated cfg r0 r"
    by (rule list_all2_right[OF p m])
  from e3 r0(1) obtain r1 where "r1 \<in> set (rooms s1)" "encounters r0 = encounters r1"
    by (rule map_eq_set)
  then have "encounters r0 = []" using fresh_rooms_fields(1)[OF fr] by simp
  then have "encounters_inside r" using r0(2) by (simp add: populated_def)
  then have "\<forall>e \<in> set (encounters r). in_interior r e"
    by (simp add: encounters_inside_def list_all_iff)
  then have "in_interior r (MonsterEnc m l px py)"
    using assms(3) by blast
  then show ?thesis by simp
qed

theorem encounter_positions_inside_witness:
  "generate_dungeon demo_runtime demo_config (Some 42) = Inr (demo_dungeon []) \<and>
   demo_rooms [] ! 1 \<in> set (d_rooms (demo_dungeon [])) \<and>
   MonsterEnc (JStr ''cave_spider'') (JInt 20) 8 3 \<in> set (encounters (demo_rooms [] ! 1)) \<and>
   room_x (demo_rooms [] ! 1) + 1 \<le> 8 \<and>
   8 \<le> room_x (demo_rooms [] ! 1) + room_width (demo_rooms [] ! 1) - 2 \<and>
   room_y (demo_rooms [] ! 1) + 1 \<le> 3 \<and>
   3 \<le> room_y (demo_rooms [] ! 1) + room_height (demo_rooms [] ! 1) - 2"
proof -
  have m: "demo_rooms [] ! 1 \<in> set (d_rooms (demo_dungeon []))"
    by (simp add: demo_dungeon_def demo_rooms_def)
  have e: "MonsterEnc (JStr ''cave_spider'') (JInt 20) 8 3 \<in> set (encounters (demo_rooms [] ! 1))"
    by (simp add: demo_rooms_def)
  show ?thesis
    using encounter_positions_inside[OF demo_run m e] demo_run m e by simp
qed

subsection \<open>No secret room beside a room of positive size\<close>

lemma one_room_run:
  "generate_dungeon one_room_runtime one_room_config (Some 42) = Inr one_room_dungeon"
  by code_simp

lemma first_fit_beside:
  assumes "base_room \<in> set rs" "0 < room_width base_room" "0 < room_height base_room"
    "3 \<le> w" "3 \<le> h"
  shows "first_fit cfg rs w h (secret_positions base_room w h) = None"
proof -
  have c: "check_room_overlap rs x y w h" if "overlap_cond base_room x y w h" for x y
    using that assms(1) by (auto simp: check_room_overlap_iff)
  have "check_room_overlap rs (room_x base_room - w - 1) (room_y base_room) w h"
    "check_room_overlap rs (room_x base_room + room_width base_room + 1) (room_y base_room) w h"
    "check_room_overlap rs (room_x base_room) (room_y base_room - h - 1) w h"
    "check_room_overlap rs (room_x base_room) (room_y base_room + room_height base_room + 1) w h"
    using assms(2-5) by (auto intro!: c simp: overlap_cond_def)
  then show ?thesis by (simp add: secret_positions_def)
qed

lemma secret_loop_none:
  "secret_loop cfg k s = Inr s' \<Longrightarrow>
   \<forall>r \<in> set (rooms s). 0 < room_width r \<and> 0 < room_height r \<Longrightarrow> rooms s' = rooms s"
proof (induction k arbitrary: s)
  case 0
  then show ?case by simp
next
  case (Suc k)
  from Suc.prems(1) show ?case
  proof (cases rule: secret_loopE)
    case (fit base_room t1 w h x y t t2)
    from fit(1) have "base_room \<in> set (rooms s)" by (rule choice_Inr) simp
    then have "first_fit cfg (rooms s) w h (secret_positions base_room w h) = None"
      using Suc.prems(2) randint_bounds[OF fit(4)] randint_bounds[OF fit(5)]
      by (intro first_fit_beside) auto
    then show ?thesis using fit(2) by simp
  next
    case (retry t)
    show ?thesis using Suc.IH[OF retry] Suc.prems(2) by simp
  qed
qed

lemma add_secret_rooms_none:
  assumes "add_secret_rooms cfg s = Inr s'"
    and "\<forall>r \<in> set (rooms s). 0 < room_width r \<and> 0 < room_height r"
  shows "rooms s' = rooms s"
  using assms(1)
proof (cases rule: add_secret_roomsE)
  case (skip t)
  then show ?thesis by simp
next
  case (attempt t)
  show ?thesis using secret_loop_none[OF attempt] assms(2) by simp
qed

lemma room_geom_sizes:
  "room_geom r' = room_geom r \<Longrightarrow>
   room_width r' = room_width r \<and> room_height r' = room_height r \<and> room_id r' = room_id r"
  by (simp add: room_geom_def)

text \<open>With a positive minimum room size the room list of the dungeon is the one the first
  four phases produce.\<close>

lemma generate_dungeon_layout_rooms:
  assumes "generate_dungeon rt cfg seed_arg = Inr d" "0 < min_room_size cfg"
  obtains s1 s2 s3 and s4 :: gen_state where
    "fresh_rooms cfg (rooms s1)" "rooms_apart (rooms s1)"
    "connect_rooms rt cfg s1 = Inr s2" "place_special_rooms cfg s2 = Inr s3"
    "list_all2 (populated cfg) (rooms s3) (rooms s4)"
    "d_rooms d = rooms s4"
proof -
  from assms(1) obtain s0 s1 s2 s3 s4 s5 s6 where
    i: "rooms s0 = []" "next_room_id s0 = 0"
    and p: "generate_rooms_bsp cfg s0 = Inr s1" "connect_rooms rt cfg s1 = Inr s2"
      "place_special_rooms cfg s2 = Inr s3" "populate_rooms cfg s3 = Inr s4"
    and t: "add_traps cfg s4 = Inr s5" and sr: "add_secret_rooms cfg s5 = Inr s6"
    and d: "d = export cfg s6"
    by (rule generate_dungeonE)
  have 1: "fresh_rooms cfg (rooms s1)" "rooms_apart (rooms s1)"
    using generate_rooms_bsp_rooms[OF p(1) i] by simp_all
  have 2: "list_all2 (populated cfg) (rooms s3) (rooms s4)"
    using populate_rooms_populated[OF p(4)] .
  have g: "map room_geom (rooms s4) = map room_geom (rooms s1)"
    using layout_geom[OF p(2,3) 2] .
  have 5: "rooms s5 = rooms s4" using add_traps_rooms[OF t] .
  have "0 < room_width r \<and> 0 < room_height r" if "r \<in> set (rooms s5)" for r
  proof -
    from g that 5 obtain r1 where r1: "r1 \<in> set (rooms s1)" "room_geom r = room_geom r1"
      by (auto elim: map_eq_set)
    show ?thesis
      using fresh_rooms_fields(4,5)[OF 1(1) r1(1)] room_geom_sizes[OF r1(2)] assms(2) by simp
  qed
  then have "rooms s6 = rooms s5" using add_secret_rooms_none[OF sr] by blast
  then have 3: "d_rooms d = rooms s4" using 5 by (simp add: d export_def)
  show thesis using that[OF 1(1) 1(2) p(2) p(3) 2 3] .
qed

subsection \<open>Entrance and boss\<close>

lemma scan_best_less:
  "best < i \<Longrightarrow> scan_best better key xs i best bk < i + length xs"
proof (induction xs arbitrary: i best bk)
  case Nil
  then show ?case by simp
next
  case (Cons r rs)
  have a: "scan_best better key rs (Suc i) i (key r) < Suc i + length rs"
    by (rule Cons.IH) simp
  have b: "scan_best better key rs (Suc i) best bk < Suc i + length rs"
    by (rule Cons.IH) (use Cons.prems in simp)
  show ?case using a b by simp
qed

lemma scan_best_max:
  "best < length pre \<Longrightarrow> bk = key ((pre @ xs) ! best) \<Longrightarrow>
   \<forall>j < length pre. key ((pre @ xs) ! j) \<le> bk \<Longrightarrow>
   \<forall>j < length (pre @ xs).
     key ((pre @ xs) ! j) \<le> key ((pre @ xs) ! scan_best (\<lambda>a b. a > b) key xs (length pre) best bk)"
proof (induction xs arbitrary: pre best bk)
  case Nil
  then show ?case by simp
next
  case (Cons r rs)
  have e: "pre @ r # rs = (pre @ [r]) @ rs" by simp
  have r: "(pre @ r # rs) ! length pre = r" by simp
  show ?case
  proof (cases "key r > bk")
    case True
    have "\<forall>j<length (pre @ [r]). key (((pre @ [r]) @ rs) ! j) \<le> key r"
    proof (intro allI impI)
      fix j assume "j < length (pre @ [r])"
      then consider "j < length pre" | "j = length pre" by fastforce
      then show "key (((pre @ [r]) @ rs) ! j) \<le> key r"
      proof cases
        case 1
        then have "key ((pre @ r # rs) ! j) \<le> bk" using Cons.prems(3) by blast
        then show ?thesis using 1 True by (simp add: nth_append)
      next
        case 2
        then show ?thesis by (simp add: nth_append)
      qed
    qed
    then have "\<forall>j < length ((pre @ [r]) @ rs).
      key (((pre @ [r]) @ rs) ! j)
        \<le> key (((pre @ [r]) @ rs) ! scan_best (\<lambda>a b. a > b) key rs (length (pre @ [r])) (length pre) (key r))"
      by (intro Cons.IH) (simp_all add: nth_append)
    then show ?thesis using True by simp
  next
    case False
    have "\<forall>j<length (pre @ [r]). key (((pre @ [r]) @ rs) ! j) \<le> bk"
    proof (intro allI impI)
      fix j assume "j < length (pre @ [r])"
      then consider "j < length pre" | "j = length pre" by fastforce
      then show "key (((pre @ [r]) @ rs) ! j) \<le> bk"
      proof cases
        case 1
        then show ?thesis using Cons.prems(3) by (simp add: nth_append)
      next
        case 2
        then show ?thesis using False by (simp add: nth_append)
      qed
    qed
    then have "\<forall>j < length ((pre @ [r]) @ rs).
      key (((pre @ [r]) @ rs) ! j)
        \<le> key (((pre @ [r]) @ rs) ! scan_best (\<lambda>a b. a > b) key rs (length (pre @ [r])) best bk)"
      using Cons.prems(1,2) by (intro Cons.IH) (simp_all add: nth_append)
    then show ?thesis using False by simp
  qed
qed

lemma py_min_index_less: "py_min_index key xs = Inr k \<Longrightarrow> k < length xs"
  unfolding py_min_index_def
  using scan_best_less[of 0 1 "\<lambda>a b. a < b" key]
  by (auto split: list.splits)

lemma py_max_index_max:
  assumes "py_max_index key xs = Inr k"
  shows "k < length xs" and "\<forall>j < length xs. key (xs ! j) \<le> key (xs ! k)"
proof -
  from assms obtain r rs where xs: "xs = r # rs"
    and k: "k = scan_best (\<lambda>a b. a > b) key rs 1 0 (key r)"
    unfolding py_max_index_def by (auto split: list.splits)
  show "k < length xs" using scan_best_less[of 0 1 "\<lambda>a b. a > b" key rs "key r"] xs k by simp
  show "\<forall>j < length xs. key (xs ! j) \<le> key (xs ! k)"
    using scan_best_max[of 0 "[r]" "key r" key rs] xs k by simp
qed

lemma room_center_in_tiles:
  assumes "0 < room_width r" "0 < room_height r"
  shows "room_center r \<in> room_tiles r"
proof -
  have "0 \<le> room_width r div 2" "room_width r div 2 < room_width r"
    "0 \<le> room_height r div 2" "room_height r div 2 < room_height r"
    using assms by presburger+
  then show ?thesis by (simp add: room_center_def room_tiles_def rect_tiles_def)
qed

lemma room_tiles_subset_padded: "room_tiles r \<subseteq> padded_tiles r"
  by (auto simp: room_tiles_def padded_tiles_def rect_tiles_def)

lemma centers_differ:
  assumes "rooms_apart rs" "i < length rs" "j < length rs" "i \<noteq> j"
    and "0 < room_width (rs ! i)" "0 < room_height (rs ! i)"
    and "0 < room_width (rs ! j)" "0 < room_height (rs ! j)"
  shows "room_center (rs ! i) \<noteq> room_center (rs ! j)"
proof
  assume e: "room_center (rs ! i) = room_center (rs ! j)"
  have "room_center (rs ! i) \<in> room_tiles (rs ! i)"
    using room_center_in_tiles[OF assms(5,6)] .
  moreover have "room_center (rs ! i) \<in> padded_tiles (rs ! j)"
    using room_center_in_tiles[OF assms(7,8)] room_tiles_subset_padded[of "rs ! j"] e by auto
  moreover have "room_tiles (rs ! i) \<inter> padded_tiles (rs ! j) = {}"
    using assms(1-4) by (simp add: rooms_apart_def)
  ultimately show False by blast
qed

lemma room_distance_sq_zero:
  "room_distance_sq a b = 0 \<longleftrightarrow> room_center a = room_center b"
  by (auto simp: room_distance_sq_def Let_def prod_eq_iff sum_power2_eq_zero_iff)

lemma room_distance_sq_nonneg: "0 \<le> room_distance_sq a b"
  by (simp add: room_distance_sq_def Let_def)

lemma room_center_set_type [simp]: "room_center (set_room_type ty r) = room_center r"
  by (simp add: room_center_def set_room_type_def)

lemma count_role_card:
  "count_role ty rs = card {k. k < length rs \<and> room_type (rs ! k) = ty}"
  by (simp add: count_role_def length_filter_conv_card)

lemma special_roles:
  assumes "place_special_rooms cfg s = Inr s'" and "rooms s \<noteq> []"
    and "\<forall>r \<in> set (rooms s). room_type r = CORRIDOR \<and> 0 < room_width r \<and> 0 < room_height r"
    and "rooms_apart (rooms s)"
  shows "length (rooms s') = length (rooms s) \<and>
         count_role BOSS (rooms s') = 1 \<and>
         count_role ENTRANCE (rooms s') = (if length (rooms s') = 1 then 0 else 1)"
  using assms(1)
proof (cases rule: place_special_roomsE)
  case none
  then show ?thesis using assms(2) by simp
next
  case (some ei bi)
  define rs where "rs = rooms s"
  define rs1 where "rs1 = rs[ei := set_room_type ENTRANCE (rs ! ei)]"
  define n where "n = length rs"
  have s': "rooms s' = rs1[bi := set_room_type BOSS (rs1 ! bi)]"
    using some(4) by (simp add: rs1_def rs_def)
  have ei: "ei < n" using py_min_index_less[OF some(2)] by (simp add: n_def rs_def)
  have mx: "py_max_index (room_distance_sq (rs1 ! ei)) rs1 = Inr bi"
    using some(3) by (simp add: rs1_def rs_def)
  have l1: "length rs1 = n" by (simp add: rs1_def n_def)
  have bi: "bi < n" using py_max_index_max(1)[OF mx] l1 by simp
  have best: "\<forall>j < n. room_distance_sq (rs1 ! ei) (rs1 ! j) \<le> room_distance_sq (rs1 ! ei) (rs1 ! bi)"
    using py_max_index_max(2)[OF mx] l1 by simp
  have cen: "room_center (rs1 ! k) = room_center (rs ! k)" if "k < n" for k
    using that ei by (cases "k = ei") (simp_all add: rs1_def n_def)
  have corr: "room_type (rs ! k) = CORRIDOR" "0 < room_width (rs ! k)" "0 < room_height (rs ! k)"
    if "k < n" for k
    using that assms(3) by (simp_all add: rs_def n_def)
  have ty: "room_type (rooms s' ! k) =
      (if k = bi then BOSS else if k = ei then ENTRANCE else CORRIDOR)" if "k < n" for k
    using that corr(1)[OF that] l1
    by (simp add: s' rs1_def n_def nth_list_update set_room_type_def)
  have len: "length (rooms s') = n" by (simp add: s' l1)
  have boss: "{k. k < n \<and> room_type (rooms s' ! k) = BOSS} = {bi}"
    using ty bi by (auto split: if_splits)
  have cb: "count_role BOSS (rooms s') = 1"
    by (simp add: count_role_card len boss)
  show ?thesis
  proof (cases "n = 1")
    case True
    then have "ei = 0" "bi = 0" using ei bi by simp_all
    then have "{k. k < n \<and> room_type (rooms s' ! k) = ENTRANCE} = {}"
      using ty True by (auto split: if_splits)
    then have "count_role ENTRANCE (rooms s') = 0" by (simp add: count_role_card len)
    then show ?thesis using cb len True by (simp add: n_def rs_def)
  next
    case False
    have "n \<noteq> 0" using assms(2) by (simp add: n_def rs_def)
    with False have n2: "2 \<le> n" by simp
    define j where "j = (if ei = 0 then 1 else (0::nat))"
    have j: "j < n" "j \<noteq> ei" using n2 by (simp_all add: j_def)
    have "room_center (rs ! ei) \<noteq> room_center (rs ! j)"
      using centers_differ[of rs ei j] assms(4) ei j corr(2,3) by (simp add: rs_def n_def)
    then have "room_distance_sq (rs1 ! ei) (rs1 ! j) \<noteq> 0"
      using cen[OF ei] cen[OF j(1)] by (simp add: room_distance_sq_zero)
    then have "0 < room_distance_sq (rs1 ! ei) (rs1 ! j)"
      using room_distance_sq_nonneg[of "rs1 ! ei" "rs1 ! j"] by simp
    then have "0 < room_distance_sq (rs1 ! ei) (rs1 ! bi)" using best j(1) by fastforce
    moreover have "room_distance_sq (rs1 ! ei) (rs1 ! ei) = 0"
      by (simp add: room_distance_sq_zero)
    ultimately have ne: "bi \<noteq> ei" by auto
    have "{k. k < n \<and> room_type (rooms s' ! k) = ENTRANCE} = {ei}"
      using ty ei ne by (auto split: if_splits)
    then have "count_role ENTRANCE (rooms s') = 1" by (simp add: count_role_card len)
    then show ?thesis using cb len False by (simp add: n_def rs_def)
  qed
qed

lemma populated_count:
  "list_all2 (populated cfg) rs rs' \<Longrightarrow>
   count_role ENTRANCE rs' = count_role ENTRANCE rs \<and> count_role BOSS rs' = count_role BOSS rs"
  by (induction rule: list_all2_induct) (simp_all add: populated_def count_role_def)

text \<open>
  C7. In a generated dungeon with at least one room, exactly one room has role boss; with
  two rooms or more exactly one room has role entrance (a different room, a room having one
  role), and with a single room no room has role entrance: the boss assignment has
  overwritten it. The configured minimum room size is positive, as the configuration
  loader is to ensure.
\<close>

theorem entrance_and_boss:
  assumes "generate_dungeon rt cfg seed_arg = Inr d"
    and "0 < min_room_size cfg" and "d_rooms d \<noteq> []"
  shows "count_role BOSS (d_rooms d) = 1 \<and>
         count_role ENTRANCE (d_rooms d) = (if length (d_rooms d) = 1 then 0 else 1)"
proof -
  from assms(1,2) obtain s1 s2 s3 and s4 :: gen_state where
    fr: "fresh_rooms cfg (rooms s1)" and ap: "rooms_apart (rooms s1)"
    and c: "connect_rooms rt cfg s1 = Inr s2" and sp: "place_special_rooms cfg s2 = Inr s3"
    and po: "list_all2 (populated cfg) (rooms s3) (rooms s4)"
    and d: "d_rooms d = rooms s4"
    by (rule generate_dungeon_layout_rooms)
  note k = without_connections_keeps[OF connect_rooms_frame[OF c]]
  have ap2: "rooms_apart (rooms s2)" using rooms_apart_geom[OF k(1) ap] .
  have r2: "room_type r = CORRIDOR \<and> 0 < room_width r \<and> 0 < room_height r"
    if "r \<in> set (rooms s2)" for r
  proof -
    from k(1) that obtain r1 where r1: "r1 \<in> set (rooms s1)" "room_geom r = room_geom r1"
      by (rule map_eq_set)
    from k(2) that obtain r1' where r1': "r1' \<in> set (rooms s1)" "room_type r = room_type r1'"
      by (rule map_eq_set)
    show ?thesis
      using fresh_rooms_fields(4,5)[OF fr r1(1)] room_geom_sizes[OF r1(2)]
        fresh_rooms_fields(2)[OF fr r1'(1)] r1'(2) assms(2) by simp
  qed
  have l: "length (rooms s4) = length (rooms s3)" using po by (simp add: list_all2_lengthD)
  have l3: "length (rooms s3) = length (rooms s2)"
    using map_eq_nth(1)[OF place_special_rooms_frame[OF sp]] .
  have ne: "rooms s2 \<noteq> []" using assms(3) d l l3 by auto
  have "length (rooms s3) = length (rooms s2) \<and>
         count_role BOSS (rooms s3) = 1 \<and>
         count_role ENTRANCE (rooms s3) = (if length (rooms s3) = 1 then 0 else 1)"
    using special_roles[OF sp ne _ ap2] r2 by blast
  then show ?thesis using populated_count[OF po] l d by simp
qed

theorem entrance_and_boss_witness:
  "(generate_dungeon demo_runtime demo_config (Some 42) = Inr (demo_dungeon []) \<and>
    0 < min_room_size demo_config \<and> d_rooms (demo_dungeon []) \<noteq> [] \<and>
    count_role BOSS (d_rooms (demo_dungeon [])) = 1 \<and>
    count_role ENTRANCE (d_rooms (demo_dungeon [])) = 1 \<and>
    length (d_rooms (demo_dungeon [])) = 4) \<and>
   (generate_dungeon one_room_runtime one_room_config (Some 42) = Inr one_room_dungeon \<and>
    0 < min_room_size one_room_config \<and> d_rooms one_room_dungeon \<noteq> [] \<and>
    count_role BOSS (d_rooms one_room_dungeon) = 1 \<and>
    count_role ENTRANCE (d_rooms one_room_dungeon) = 0 \<and>
    length (d_rooms one_room_dungeon) = 1)"
proof -
  have a: "0 < min_room_size demo_config" "d_rooms (demo_dungeon []) \<noteq> []"
    "length (d_rooms (demo_dungeon [])) = 4"
    by (simp_all add: demo_config_def demo_dungeon_def demo_rooms_def)
  have b: "0 < min_room_size one_room_config" "d_rooms one_room_dungeon \<noteq> []"
    "length (d_rooms one_room_dungeon) = 1"
    by (simp_all add: demo_config_def one_room_config_def one_room_dungeon_def)
  show ?thesis
    using entrance_and_boss[OF demo_run a(1,2)] entrance_and_boss[OF one_room_run b(1,2)]
      demo_run one_room_run a b
    by simp
qed

subsection \<open>The recorded adjacency\<close>

lemma edge_list_iff:
  "(a, b) \<in> set (edge_list rs) \<longleftrightarrow>
   (\<exists>k < length rs. a = room_id (rs ! k) \<and> b \<in> set (connections (rs ! k)))"
proof
  assume "(a, b) \<in> set (edge_list rs)"
  then obtain r where "r \<in> set rs" "a = room_id r" "b \<in> set (connections r)"
    by (auto simp: edge_list_def)
  then show "\<exists>k < length rs. a = room_id (rs ! k) \<and> b \<in> set (connections (rs ! k))"
    by (auto simp: in_set_conv_nth)
next
  assume "\<exists>k < length rs. a = room_id (rs ! k) \<and> b \<in> set (connections (rs ! k))"
  then obtain k where k: "k < length rs" "a = room_id (rs ! k)" "b \<in> set (connections (rs ! k))"
    by blast
  have "rs ! k \<in> set rs" using k(1) by simp
  then show "(a, b) \<in> set (edge_list rs)" using k(2,3) by (auto simp: edge_list_def)
qed

lemma connections_grow_refl: "connections_grow rs rs"
  by (simp add: connections_grow_def)

lemma connections_grow_trans:
  "connections_grow rs rs1 \<Longrightarrow> connections_grow rs1 rs2 \<Longrightarrow> connections_grow rs rs2"
  unfolding connections_grow_def by (simp; blast)

lemma connections_grow_edges:
  assumes "connections_grow rs rs'"
  shows "set (edge_list rs) \<subseteq> set (edge_list rs')"
proof
  fix e assume e: "e \<in> set (edge_list rs)"
  obtain a b where ab: "e = (a, b)" by (cases e)
  with e obtain k where k: "k < length rs" "a = room_id (rs ! k)" "b \<in> set (connections (rs ! k))"
    by (auto simp: edge_list_iff)
  have "k < length rs'" "a = room_id (rs' ! k)" "b \<in> set (connections (rs' ! k))"
    using assms k unfolding connections_grow_def by auto
  then show "e \<in> set (edge_list rs')" unfolding ab edge_list_iff by blast
qed

lemma connections_grow_reachable:
  assumes "connections_grow rs rs'" "reachable rs a b"
  shows "reachable rs' a b"
  using rtrancl_mono[OF connections_grow_edges[OF assms(1)]] assms(2)
  by (auto simp: reachable_def)

lemma connections_grow_indexed:
  "connections_grow rs rs' \<Longrightarrow> indexed_ids rs \<Longrightarrow> indexed_ids rs'"
  by (simp add: connections_grow_def indexed_ids_def)

lemma connections_grow_linked:
  assumes "connections_grow rs rs'" "linked_to_first rs"
  shows "linked_to_first rs'"
proof -
  have l: "length rs' = length rs" using assms(1) by (simp add: connections_grow_def)
  show ?thesis
    unfolding linked_to_first_def l
    using assms(2) connections_grow_reachable[OF assms(1)]
    by (simp add: linked_to_first_def)
qed

lemma add_connection_fields [simp]:
  "room_id (add_connection c r) = room_id r"
  "set (connections (add_connection c r)) = insert c (set (connections r))"
  by (simp_all add: add_connection_def)

lemma link_rooms_edges:
  assumes "link_rooms cfg i j ci cj s = Inr s'"
  shows "connections_grow (rooms s) (rooms s')"
    and "i < length (rooms s)" and "j < length (rooms s)"
    and "(room_id (rooms s ! i), cj) \<in> set (edge_list (rooms s'))"
    and "(room_id (rooms s ! j), ci) \<in> set (edge_list (rooms s'))"
proof -
  define rs where "rs = rooms s"
  define rs1 where "rs1 = rs[i := add_connection cj (rs ! i)]"
  from assms obtain g t where i: "i < length rs" and j: "j < length rs"
    and s': "rooms s' = rs1[j := add_connection ci (rs1 ! j)]"
    by (rule link_roomsE) (simp add: rs_def rs1_def)
  have l1: "length rs1 = length rs" by (simp add: rs1_def)
  have n1: "room_id (rs1 ! k) = room_id (rs ! k) \<and>
            set (connections (rs ! k)) \<subseteq> set (connections (rs1 ! k)) \<and>
            (k = i \<longrightarrow> cj \<in> set (connections (rs1 ! k)))" if "k < length rs" for k
    using that by (cases "k = i") (auto simp: rs1_def)
  have n2: "room_id (rooms s' ! k) = room_id (rs1 ! k) \<and>
            set (connections (rs1 ! k)) \<subseteq> set (connections (rooms s' ! k)) \<and>
            (k = j \<longrightarrow> ci \<in> set (connections (rooms s' ! k)))" if "k < length rs" for k
    using that l1 by (cases "k = j") (auto simp: s')
  have n: "room_id (rooms s' ! k) = room_id (rs ! k) \<and>
            set (connections (rs ! k)) \<subseteq> set (connections (rooms s' ! k)) \<and>
            (k = i \<longrightarrow> cj \<in> set (connections (rooms s' ! k))) \<and>
            (k = j \<longrightarrow> ci \<in> set (connections (rooms s' ! k)))" if "k < length rs" for k
    using n1[OF that] n2[OF that] by auto
  have l: "length (rooms s') = length rs" by (simp add: s' l1)
  show "connections_grow (rooms s) (rooms s')"
    using n l by (simp add: connections_grow_def rs_def)
  show "i < length (rooms s)" "j < length (rooms s)" using i j by (simp_all add: rs_def)
  show "(room_id (rooms s ! i), cj) \<in> set (edge_list (rooms s'))"
    unfolding edge_list_iff using n[OF i] i l by (auto simp: rs_def)
  show "(room_id (rooms s ! j), ci) \<in> set (edge_list (rooms s'))"
    unfolding edge_list_iff using n[OF j] j l by (auto simp: rs_def)
qed

subsection \<open>The spanning tree\<close>

lemma best_step_pair:
  "best_step rs c u acc = Inr acc' \<Longrightarrow> acc' = acc \<or> snd acc' = (c, u)"
  unfolding best_step_def Let_def
  by (auto split: sum.splits if_splits)

lemma find_best_pair_fst:
  assumes "find_best_pair rs cs us = Inr (bd, bp)"
  shows "fst bp = 0 \<or> fst bp \<in> set cs"
proof -
  let ?P = "\<lambda>acc :: int option \<times> nat \<times> nat. fst (snd acc) = 0 \<or> fst (snd acc) \<in> set cs"
  have "?P (bd, bp)"
    using assms unfolding find_best_pair_def
  proof (rule for_each_invariant[where P = ?P])
    show "?P (None, 0, 1)" by simp
  next
    fix c a b
    assume c: "c \<in> set cs" and a: "?P a" and b: "for_each (\<lambda>u. best_step rs c u) us a = Inr b"
    show "?P b"
      using b a
    proof (rule for_each_invariant[where P = ?P])
      fix u x y
      assume "?P x" "best_step rs c u x = Inr y"
      then show "?P y" using best_step_pair[of rs c u x y] c by auto
    qed
  qed
  then show ?thesis by simp
qed

lemma set_set_iter [simp]: "set (set_iter rt xs) = set xs"
  by (simp add: set_iter_def)

lemma spanning_loop_linked:
  "spanning_loop rt cfg conn unconn s = Inr s' \<Longrightarrow> indexed_ids (rooms s) \<Longrightarrow>
   0 \<in> set conn \<Longrightarrow>
   \<forall>c \<in> set conn. reachable (rooms s) 0 (int c) \<and> reachable (rooms s) (int c) 0 \<Longrightarrow>
   \<forall>k < length (rooms s). k \<in> set conn \<or> k \<in> set unconn \<Longrightarrow>
   connections_grow (rooms s) (rooms s') \<and> linked_to_first (rooms s')"
proof (induction rt cfg conn unconn s rule: spanning_loop.induct)
  case (1 rt cfg conn unconn s)
  show ?case
  proof (cases "unconn = []")
    case True
    then have "s' = s" using "1.prems"(1) by (simp add: spanning_loop_Nil)
    then show ?thesis
      using "1.prems"(4,5) True by (simp add: connections_grow_refl linked_to_first_def)
  next
    case False
    from "1.prems"(1) False obtain bd bp s1 where
      f: "find_best_pair (rooms s) (set_iter rt conn) (set_iter rt unconn) = Inr (bd, bp)"
      and l: "link_rooms cfg (fst bp) (snd bp) (int (fst bp)) (int (snd bp)) s = Inr s1"
      and m: "snd bp \<in> set unconn"
      and r: "spanning_loop rt cfg (set_add (snd bp) conn) (removeAll (snd bp) unconn) s1 = Inr s'"
      by (rule spanning_loopE)
    define c where "c = fst bp"
    define u where "u = snd bp"
    note e = link_rooms_edges[OF l]
    have g: "connections_grow (rooms s) (rooms s1)" using e(1) .
    have cc: "c \<in> set conn" using find_best_pair_fst[OF f] "1.prems"(3) by (auto simp: c_def)
    have idc: "room_id (rooms s ! c) = int c" "room_id (rooms s ! u) = int u"
      using "1.prems"(2) e(2,3) by (simp_all add: indexed_ids_def c_def u_def)
    have cu: "(int c, int u) \<in> set (edge_list (rooms s1))"
      "(int u, int c) \<in> set (edge_list (rooms s1))"
      using e(4,5) idc by (simp_all add: c_def u_def)
    have rc: "reachable (rooms s1) 0 (int c)" "reachable (rooms s1) (int c) 0"
      using "1.prems"(4) cc connections_grow_reachable[OF g] by blast+
    have ru: "reachable (rooms s1) 0 (int u)" "reachable (rooms s1) (int u) 0"
      using rc cu unfolding reachable_def
      by (auto intro: rtrancl_into_rtrancl converse_rtrancl_into_rtrancl)
    have i1: "indexed_ids (rooms s1)" using connections_grow_indexed[OF g "1.prems"(2)] .
    have z1: "0 \<in> set (set_add u conn)" using "1.prems"(3) by (simp add: set_add_def)
    have r1: "\<forall>x \<in> set (set_add u conn).
        reachable (rooms s1) 0 (int x) \<and> reachable (rooms s1) (int x) 0"
    proof
      fix x assume "x \<in> set (set_add u conn)"
      then consider "x = u" | "x \<in> set conn" by (auto simp: set_add_def split: if_splits)
      then show "reachable (rooms s1) 0 (int x) \<and> reachable (rooms s1) (int x) 0"
      proof cases
        case 1
        then show ?thesis using ru by simp
      next
        case 2
        then show ?thesis using "1.prems"(4) connections_grow_reachable[OF g] by blast
      qed
    qed
    have len: "length (rooms s1) = length (rooms s)" using g by (simp add: connections_grow_def)
    have c1: "\<forall>k < length (rooms s1). k \<in> set (set_add u conn) \<or> k \<in> set (removeAll u unconn)"
      using "1.prems"(5) len by (auto simp: set_add_def)
    have "connections_grow (rooms s1) (rooms s') \<and> linked_to_first (rooms s')"
      using "1.IH"[OF False f refl l m r i1] z1 r1 c1 by (simp add: u_def)
    then show ?thesis using connections_grow_trans[OF g] by blast
  qed
qed

lemma extra_connection_grow:
  assumes "extra_connection cfg s = Inr s'"
  shows "connections_grow (rooms s) (rooms s')"
  using assms
proof (cases rule: extra_connectionE)
  case (linked i1 i2 t)
  show ?thesis using link_rooms_edges(1)[OF linked(3)] by simp
next
  case (skipped t)
  then show ?thesis by (simp add: connections_grow_refl)
qed

lemma connect_rooms_linked:
  assumes "connect_rooms rt cfg s = Inr s'" "indexed_ids (rooms s)"
  shows "linked_to_first (rooms s')"
  using assms(1)
proof (cases rule: connect_roomsE)
  case few
  show ?thesis
    unfolding linked_to_first_def
  proof (intro allI impI)
    fix k assume "k < length (rooms s')"
    then have "k = 0" using few by simp
    then show "reachable (rooms s') 0 (int k) \<and> reachable (rooms s') (int k) 0"
      by (simp add: reachable_def)
  qed
next
  case (many s1 n t)
  have "\<forall>c \<in> set [0::nat]. reachable (rooms s) 0 (int c) \<and> reachable (rooms s) (int c) 0"
    by (simp add: reachable_def)
  moreover have "\<forall>k < length (rooms s). k \<in> set [0::nat] \<or> k \<in> set [1..<length (rooms s)]"
    by auto
  ultimately have 1: "linked_to_first (rooms s1)"
    using spanning_loop_linked[OF many(2) assms(2)] by simp
  have "connections_grow (rooms (s1\<lparr>rng := t\<rparr>)) (rooms (s1\<lparr>rng := t\<rparr>))"
    by (simp add: connections_grow_refl)
  with many(4) have "connections_grow (rooms (s1\<lparr>rng := t\<rparr>)) (rooms s')"
    by (rule for_each_invariant[where P = "\<lambda>a. connections_grow (rooms (s1\<lparr>rng := t\<rparr>)) (rooms a)"])
       (blast intro: connections_grow_trans extra_connection_grow)
  then show ?thesis using connections_grow_linked[OF _ 1] by simp
qed

subsection \<open>Connectivity of the room catalog\<close>

lemma edge_list_cong:
  assumes "map (\<lambda>r. (room_id r, connections r)) rs' = map (\<lambda>r. (room_id r, connections r)) rs"
  shows "edge_list rs' = edge_list rs"
proof -
  have e: "edge_list xs
      = concat (map (\<lambda>p. map (Pair (fst p)) (snd p)) (map (\<lambda>r. (room_id r, connections r)) xs))"
    for xs by (simp add: edge_list_def comp_def)
  show ?thesis by (simp only: e assms)
qed

lemma fresh_indexed: "fresh_rooms cfg rs \<Longrightarrow> indexed_ids rs"
  unfolding indexed_ids_def
proof (intro allI impI)
  fix k assume f: "fresh_rooms cfg rs" and k: "k < length rs"
  then have "rs ! k = new_room (int k) CORRIDOR (room_x (rs ! k)) (room_y (rs ! k))
                   (room_width (rs ! k)) (room_height (rs ! k))"
    by (simp add: fresh_rooms_def)
  then have "room_id (rs ! k) = room_id (new_room (int k) CORRIDOR (room_x (rs ! k))
      (room_y (rs ! k)) (room_width (rs ! k)) (room_height (rs ! k)))" by simp
  then show "room_id (rs ! k) = int k" by simp
qed

lemma populated_edges:
  "list_all2 (populated cfg) rs rs' \<Longrightarrow>
   map (\<lambda>r. (room_id r, connections r)) rs' = map (\<lambda>r. (room_id r, connections r)) rs"
  by (induction rule: list_all2_induct) (simp_all add: populated_def room_geom_def)

lemma without_type_edges:
  assumes "map without_type rs' = map without_type rs"
  shows "map (\<lambda>r. (room_id r, connections r)) rs' = map (\<lambda>r. (room_id r, connections r)) rs"
  by (rule map_through[OF assms, where g = "\<lambda>r. (room_id r, connections r)"])
     (simp add: without_type_def)

lemma same_edges_linked:
  assumes "map (\<lambda>r. (room_id r, connections r)) rs' = map (\<lambda>r. (room_id r, connections r)) rs"
  shows "linked_to_first rs' = linked_to_first rs" and "indexed_ids rs' = indexed_ids rs"
proof -
  have l: "length rs' = length rs" using map_eq_nth(1)[OF assms] .
  show "linked_to_first rs' = linked_to_first rs"
    by (simp add: linked_to_first_def reachable_def edge_list_cong[OF assms] l)
  have "room_id (rs' ! k) = room_id (rs ! k)" if "k < length rs" for k
    using map_eq_nth(2)[OF assms that] by simp
  then show "indexed_ids rs' = indexed_ids rs" by (simp add: indexed_ids_def l)
qed

text \<open>
  C2. In a generated dungeon every room is reachable from every other room along the
  recorded connections. The configured minimum room size is positive, as the configuration
  loader is to ensure; no secret room is then ever added, the four candidate positions
  lying within the padding of the anchor room.
\<close>

theorem catalog_connected:
  assumes "generate_dungeon rt cfg seed_arg = Inr d" and "0 < min_room_size cfg"
    and "r1 \<in> set (d_rooms d)" and "r2 \<in> set (d_rooms d)"
  shows "reachable (d_rooms d) (room_id r1) (room_id r2)"
proof -
  from assms(1,2) obtain s1 s2 s3 and s4 :: gen_state where
    fr: "fresh_rooms cfg (rooms s1)"
    and "rooms_apart (rooms s1)"
    and c: "connect_rooms rt cfg s1 = Inr s2" and sp: "place_special_rooms cfg s2 = Inr s3"
    and po: "list_all2 (populated cfg) (rooms s3) (rooms s4)"
    and d: "d_rooms d = rooms s4"
    by (rule generate_dungeon_layout_rooms)
  have i1: "indexed_ids (rooms s1)" using fresh_indexed[OF fr] .
  have l2: "linked_to_first (rooms s2)" using connect_rooms_linked[OF c i1] .
  have "map room_geom (rooms s2) = map room_geom (rooms s1)"
    using without_connections_keeps(1)[OF connect_rooms_frame[OF c]] .
  then have "room_id (rooms s2 ! k) = room_id (rooms s1 ! k)" if "k < length (rooms s1)" for k
    using map_eq_nth(2)[of room_geom "rooms s2" "rooms s1" k] that by (simp add: room_geom_def)
  moreover have "length (rooms s2) = length (rooms s1)"
    using map_eq_nth(1)[OF connect_rooms_frame[OF c]] .
  ultimately have i2: "indexed_ids (rooms s2)" using i1 by (simp add: indexed_ids_def)
  note e3 = without_type_edges[OF place_special_rooms_frame[OF sp]]
  note e4 = populated_edges[OF po]
  have l4: "linked_to_first (rooms s4)"
    using l2 same_edges_linked(1)[OF e3] same_edges_linked(1)[OF e4] by simp
  have i4: "indexed_ids (rooms s4)"
    using i2 same_edges_linked(2)[OF e3] same_edges_linked(2)[OF e4] by simp
  from assms(3,4) d obtain i j where
    i: "i < length (rooms s4)" "r1 = rooms s4 ! i" and j: "j < length (rooms s4)" "r2 = rooms s4 ! j"
    by (auto simp: in_set_conv_nth)
  have "reachable (rooms s4) (int i) 0" "reachable (rooms s4) 0 (int j)"
    using l4 i(1) j(1) by (simp_all add: linked_to_first_def)
  then have "reachable (rooms s4) (int i) (int j)"
    unfolding reachable_def by (rule rtrancl_trans)
  moreover have "room_id r1 = int i" "room_id r2 = int j"
    using i4 i j by (simp_all add: indexed_ids_def)
  ultimately show ?thesis by (simp add: d)
qed

theorem catalog_connected_witness:
  "generate_dungeon demo_runtime demo_config (Some 42) = Inr (demo_dungeon []) \<and>
   0 < min_room_size demo_config \<and>
   demo_rooms [] ! 2 \<in> set (d_rooms (demo_dungeon [])) \<and>
   demo_rooms [] ! 3 \<in> set (d_rooms (demo_dungeon [])) \<and>
   room_id (demo_rooms [] ! 2) = 2 \<and> room_id (demo_rooms [] ! 3) = 3 \<and>
   reachable (d_rooms (demo_dungeon [])) 2 3"
proof -
  have a: "0 < min_room_size demo_config"
    "demo_rooms [] ! 2 \<in> set (d_rooms (demo_dungeon []))"
    "demo_rooms [] ! 3 \<in> set (d_rooms (demo_dungeon []))"
    by (simp_all add: demo_config_def demo_dungeon_def demo_rooms_def)
  have b: "room_id (demo_rooms [] ! 2) = 2" "room_id (demo_rooms [] ! 3) = 3"
    by (simp_all add: demo_rooms_def)
  show ?thesis
    using catalog_connected[OF demo_run a] demo_run a b by simp
qed

subsection \<open>The left margin of the grid\<close>

lemma py_range_mem: "x \<in> set (py_range a b) \<Longrightarrow> a \<le> x \<and> x < b"
  by (simp add: py_range_def)

lemma grid_set_origin:
  assumes "grid_set x y v a = Inr b" "0 < x" "grid_get 0 0 a = Inr c"
  shows "grid_get 0 0 b = Inr c"
proof -
  from assms(1) obtain j i where ji: "py_index (length a) y = Inr j"
    "py_index (length (a ! j)) x = Inr i" "b = a[j := (a ! j)[i := v]]"
    by (auto simp: grid_set_def split: sum.splits)
  have i: "i \<noteq> 0" using ji(2) assms(2) by (auto simp: py_index_def split: if_splits)
  have j: "j < length a" using ji(1) by (rule py_index_Inr)
  from assms(3) have c: "0 < length a" "0 < length (a ! 0)" "c = a ! 0 ! 0"
    by (auto simp: grid_get_def py_index_def split: sum.splits if_splits)
  have "length b = length a" "length (b ! 0) = length (a ! 0)" "b ! 0 ! 0 = a ! 0 ! 0"
    using i j c(1) by (simp_all add: ji(3) nth_list_update)
  then show ?thesis using c by (simp add: grid_get_def py_index_def)
qed

lemma carve_room_origin:
  assumes "carve_room room g = Inr g'" "0 < room_x room" "grid_get 0 0 g = Inr c"
  shows "grid_get 0 0 g' = Inr c"
  using assms(1) unfolding carve_room_def
proof (rule for_each_invariant[where P = "\<lambda>a. grid_get 0 0 a = Inr c"])
  show "grid_get 0 0 g = Inr c" by fact
next
  fix y a b
  assume a: "grid_get 0 0 a = Inr c" and b: "for_each (\<lambda>x. grid_set x y FLOOR)
      (py_range (room_x room) (room_x room + room_width room)) a = Inr b"
  show "grid_get 0 0 b = Inr c"
    using b a
  proof (rule for_each_invariant[where P = "\<lambda>a. grid_get 0 0 a = Inr c"])
    fix x a' b'
    assume "x \<in> set (py_range (room_x room) (room_x room + room_width room))"
      and a': "grid_get 0 0 a' = Inr c" and w: "grid_set x y FLOOR a' = Inr b'"
    then have "0 < x" using py_range_mem[of x] assms(2) by fastforce
    then show "grid_get 0 0 b' = Inr c" using grid_set_origin[OF w _ a'] by simp
  qed
qed

lemma carve_cell_origin:
  "carve_cell cfg x y g = Inr g' \<Longrightarrow> 0 < x \<Longrightarrow> grid_get 0 0 g = Inr c
   \<Longrightarrow> grid_get 0 0 g' = Inr c"
  by (auto simp: carve_cell_def split: if_splits intro: grid_set_origin)

lemma carve_h_corridor_origin:
  assumes "carve_h_corridor cfg x1 x2 y g = Inr g'" "0 < x1" "0 < x2"
    "grid_get 0 0 g = Inr c"
  shows "grid_get 0 0 g' = Inr c"
  using assms(1) unfolding carve_h_corridor_def
proof (rule for_each_invariant[where P = "\<lambda>a. grid_get 0 0 a = Inr c"])
  show "grid_get 0 0 g = Inr c" by fact
next
  fix x a b
  assume "x \<in> set (py_range (min x1 x2) (max x1 x2 + 1))"
    and a: "grid_get 0 0 a = Inr c" and w: "carve_cell cfg x y a = Inr b"
  then have "0 < x" using py_range_mem[of x] assms(2,3) by fastforce
  then show "grid_get 0 0 b = Inr c" using carve_cell_origin[OF w _ a] by simp
qed

lemma carve_v_corridor_origin:
  assumes "carve_v_corridor cfg y1 y2 x g = Inr g'" "0 < x" "grid_get 0 0 g = Inr c"
  shows "grid_get 0 0 g' = Inr c"
  using assms(1) unfolding carve_v_corridor_def
proof (rule for_each_invariant[where P = "\<lambda>a. grid_get 0 0 a = Inr c"])
  show "grid_get 0 0 g = Inr c" by fact
next
  fix y a b
  assume a: "grid_get 0 0 a = Inr c" and w: "carve_cell cfg x y a = Inr b"
  show "grid_get 0 0 b = Inr c" using carve_cell_origin[OF w assms(2) a] .
qed

lemma carve_corridor_origin:
  assumes "carve_corridor cfg r1 r2 gt = Inr gt'"
    and "0 < fst (room_center r1)" "0 < fst (room_center r2)"
    and "grid_get 0 0 (fst gt) = Inr c"
  shows "grid_get 0 0 (fst gt') = Inr c"
proof -
  let ?c1 = "room_center r1" and ?c2 = "room_center r2"
  from assms(1) consider
    (row_first) g1 where
      "carve_h_corridor cfg (fst ?c1) (fst ?c2) (snd ?c1) (fst gt) = Inr g1"
      "carve_v_corridor cfg (snd ?c1) (snd ?c2) (fst ?c2) g1 = Inr (fst gt')"
  | (column_first) g1 where
      "carve_v_corridor cfg (snd ?c1) (snd ?c2) (fst ?c1) (fst gt) = Inr g1"
      "carve_h_corridor cfg (fst ?c1) (fst ?c2) (snd ?c2) g1 = Inr (fst gt')"
    unfolding carve_corridor_def Let_def
    by (auto split: prod.splits if_splits sum.splits)
  then show ?thesis
  proof cases
    case row_first
    have "grid_get 0 0 g1 = Inr c"
      using carve_h_corridor_origin[OF row_first(1) assms(2,3,4)] .
    then show ?thesis using carve_v_corridor_origin[OF row_first(2) assms(3)] by simp
  next
    case column_first
    have "grid_get 0 0 g1 = Inr c"
      using carve_v_corridor_origin[OF column_first(1) assms(2,4)] .
    then show ?thesis using carve_h_corridor_origin[OF column_first(2) assms(2,3)] by simp
  qed
qed

lemma room_center_right: "0 < room_x r \<Longrightarrow> 0 \<le> room_width r \<Longrightarrow> 0 < fst (room_center r)"
proof -
  assume a: "0 < room_x r" "0 \<le> room_width r"
  have "0 \<le> room_width r div 2" using a(2) by (simp add: pos_imp_zdiv_nonneg_iff)
  then show ?thesis using a(1) by (simp add: room_center_def)
qed

lemma link_rooms_margin:
  assumes "link_rooms cfg i j ci cj s = Inr s'" "left_margin s"
  shows "left_margin s'"
proof -
  from assms(1) obtain g t where l: "i < length (rooms s)" "j < length (rooms s)"
    "carve_corridor cfg (rooms s ! i) (rooms s ! j) (grid s, rng s) = Inr (g, t)"
    and g: "grid s' = g"
    by (rule link_roomsE) simp
  have m: "0 < room_x r \<and> 0 \<le> room_width r" if "r \<in> set (rooms s)" for r
    using assms(2) that by (simp add: left_margin_def)
  have "0 < fst (room_center (rooms s ! i))" "0 < fst (room_center (rooms s ! j))"
    using m[of "rooms s ! i"] m[of "rooms s ! j"] l(1,2) by (simp_all add: room_center_right)
  then have 1: "grid_get 0 0 (grid s') = Inr WALL"
    using carve_corridor_origin[OF l(3)] assms(2) g by (simp add: left_margin_def)
  have 2: "0 < room_x r' \<and> 0 \<le> room_width r'" if "r' \<in> set (rooms s')" for r'
  proof -
    from link_rooms_frame[OF assms(1)] that obtain r where
      r: "r \<in> set (rooms s)" "without_connections r' = without_connections r"
      by (rule map_eq_set)
    have "room_x (without_connections r') = room_x r'"
      "room_width (without_connections r') = room_width r'"
      "room_x (without_connections r) = room_x r"
      "room_width (without_connections r) = room_width r"
      by (simp_all add: without_connections_def)
    then show ?thesis using m[OF r(1)] r(2) by simp
  qed
  show ?thesis using 1 2 by (simp add: left_margin_def)
qed

lemma spanning_loop_margin:
  "spanning_loop rt cfg conn unconn s = Inr s' \<Longrightarrow> left_margin s \<Longrightarrow> left_margin s'"
proof (induction rt cfg conn unconn s rule: spanning_loop.induct)
  case (1 rt cfg conn unconn s)
  show ?case
  proof (cases "unconn = []")
    case True
    then show ?thesis using "1.prems" by (simp add: spanning_loop_Nil)
  next
    case False
    from "1.prems"(1) False obtain bd bp s1 where
      f: "find_best_pair (rooms s) (set_iter rt conn) (set_iter rt unconn) = Inr (bd, bp)"
      and l: "link_rooms cfg (fst bp) (snd bp) (int (fst bp)) (int (snd bp)) s = Inr s1"
      and m: "snd bp \<in> set unconn"
      and r: "spanning_loop rt cfg (set_add (snd bp) conn) (removeAll (snd bp) unconn) s1 = Inr s'"
      by (rule spanning_loopE)
    have "left_margin s1" using link_rooms_margin[OF l "1.prems"(2)] .
    then show ?thesis using "1.IH"[OF False f refl l m r] by simp
  qed
qed

lemma left_margin_rng [simp]: "left_margin (s\<lparr>rng := t\<rparr>) = left_margin s"
  by (simp add: left_margin_def)

lemma extra_connection_margin:
  assumes "extra_connection cfg s = Inr s'" "left_margin s"
  shows "left_margin s'"
  using assms(1)
proof (cases rule: extra_connectionE)
  case (linked i1 i2 t)
  show ?thesis using link_rooms_margin[OF linked(3)] assms(2) by simp
next
  case (skipped t)
  then show ?thesis using assms(2) by simp
qed

lemma connect_rooms_margin:
  assumes "connect_rooms rt cfg s = Inr s'" "left_margin s"
  shows "left_margin s'"
  using assms(1)
proof (cases rule: connect_roomsE)
  case few
  then show ?thesis using assms(2) by simp
next
  case (many s1 n t)
  have "left_margin (s1\<lparr>rng := t\<rparr>)" using spanning_loop_margin[OF many(2) assms(2)] by simp
  with many(4) show ?thesis
    by (rule for_each_invariant[where P = left_margin]) (rule extra_connection_margin)
qed

lemma place_trial_margin:
  assumes "place_trial cfg s = Inr s'" "0 \<le> min_room_size cfg" "left_margin s"
  shows "left_margin s'"
  using assms(1)
proof (cases rule: place_trialE)
  case (placed w h x y t1 t2 t3 t4 g)
  have w: "0 \<le> w" using randint_bounds[OF placed(1)] assms(2) by simp
  have x: "0 < x" using randint_bounds[OF placed(3)] by simp
  have "grid_get 0 0 g = Inr WALL"
    using carve_room_origin[OF placed(6)] x assms(3) by (simp add: left_margin_def)
  then show ?thesis using w x assms(3) placed(7) by (simp add: left_margin_def)
next
  case (rejected t)
  then show ?thesis using assms(3) by simp
qed

lemma place_loop_margin:
  "place_loop cfg n k s = Inr s' \<Longrightarrow> 0 \<le> min_room_size cfg \<Longrightarrow> left_margin s
   \<Longrightarrow> left_margin s'"
proof (induction k arbitrary: s)
  case 0
  then show ?case by simp
next
  case (Suc k)
  from Suc.prems(1) show ?case
  proof (cases rule: place_loopE)
    case stop
    then show ?thesis using Suc.prems by simp
  next
    case (trial s1)
    show ?thesis
      using Suc.IH[OF trial(2) Suc.prems(2)] place_trial_margin[OF trial(1) Suc.prems(2,3)] .
  qed
qed

lemma generate_rooms_bsp_margin:
  assumes "generate_rooms_bsp cfg s = Inr s'" "0 \<le> min_room_size cfg" "left_margin s"
  shows "left_margin s'"
proof -
  from assms(1) obtain n t where "place_loop cfg n (nat (n * 3)) (s\<lparr>rng := t\<rparr>) = Inr s'"
    by (rule generate_rooms_bspE)
  then show ?thesis using place_loop_margin[of cfg n _ "s\<lparr>rng := t\<rparr>" s'] assms(2,3) by simp
qed

text \<open>With non-negative room sizes the tile at the origin of a non-empty grid is still wall
  when the trap pass starts.\<close>

lemma layout_origin:
  assumes "layout_state rt cfg seed_arg = Inr s" "0 \<le> min_room_size cfg"
    and "0 < width cfg" "0 < height cfg"
  shows "grid_get 0 0 (grid s) = Inr WALL"
proof -
  from assms(1) obtain si where i: "DungeonGenerator_init rt seed_arg = Inr si"
    and l: "generate_layout rt cfg si = Inr s"
    unfolding layout_state_def by (auto split: sum.splits)
  from i have r: "rooms si = []"
    unfolding DungeonGenerator_init_def by (auto split: sum.splits option.splits if_splits)
  let ?s0 = "si\<lparr>grid := replicate (nat (height cfg)) (replicate (nat (width cfg)) WALL)\<rparr>"
  from l obtain a1 a2 a3 where q:
    "generate_rooms_bsp cfg ?s0 = Inr a1"
    "connect_rooms rt cfg a1 = Inr a2" "place_special_rooms cfg a2 = Inr a3"
    "populate_rooms cfg a3 = Inr s"
    unfolding generate_layout_def by (auto split: sum.splits)
  have "grid_get 0 0 (replicate (nat (height cfg)) (replicate (nat (width cfg)) WALL)) = Inr WALL"
    using assms(3,4) by (simp add: grid_get_def py_index_def)
  then have "left_margin ?s0" using r by (simp add: left_margin_def)
  then have "left_margin a1" by (rule generate_rooms_bsp_margin[OF q(1) assms(2)])
  then have "left_margin a2" by (rule connect_rooms_margin[OF q(2)])
  then show ?thesis
    using place_special_rooms_grid[OF q(3)] populate_rooms_grid[OF q(4)]
    by (simp add: left_margin_def)
qed

subsection \<open>The number of traps\<close>

lemma collect_row_length:
  assumes "for_each (collect_floor g y) xs a = Inr b"
  shows "length b \<le> length a + length xs"
  using for_each_measure[OF assms, where m = length and c = 1] collect_floor_length by simp

lemma collect_rows_length:
  assumes "for_each (\<lambda>y. for_each (collect_floor g y) xs) ys a = Inr b"
  shows "length b \<le> length a + length xs * length ys"
  using for_each_measure[OF assms, where m = length and c = "length xs"] collect_row_length
  by simp

lemma py_range_Cons: "a < b \<Longrightarrow> py_range a b = a # py_range (a + 1) b"
  by (simp add: py_range_def upto_rec1)

text \<open>A wall at the origin is one tile of the scan that is not collected.\<close>

lemma floor_tiles_length_less:
  assumes "for_each (\<lambda>y. for_each (collect_floor g y) (py_range 0 w)) (py_range 0 h) []
           = Inr floor_tiles"
    and "grid_get 0 0 g = Inr WALL" "0 < w" "0 < h"
  shows "length floor_tiles < nat w * nat h"
proof -
  from assms(1) obtain a1 where
    row: "for_each (collect_floor g 0) (py_range 0 w) [] = Inr a1"
    and rest: "for_each (\<lambda>y. for_each (collect_floor g y) (py_range 0 w)) (py_range 1 h) a1
               = Inr floor_tiles"
    using py_range_Cons[OF assms(4)] by (auto split: sum.splits)
  have "collect_floor g 0 0 [] = Inr []" using assms(2) by (simp add: collect_floor_def)
  then have "for_each (collect_floor g 0) (py_range 1 w) [] = Inr a1"
    using row py_range_Cons[OF assms(3)] by simp
  then have "length a1 \<le> length (py_range 1 w)" using collect_row_length by fastforce
  then have 1: "length a1 \<le> nat (w - 1)" by (simp add: py_range_def)
  have "length floor_tiles \<le> length a1 + length (py_range 0 w) * length (py_range 1 h)"
    using rest by (rule collect_rows_length)
  then have 2: "length floor_tiles \<le> length a1 + nat w * nat (h - 1)"
    by (simp add: py_range_def)
  define a b where "a = nat (w - 1)" and "b = nat (h - 1)"
  have w: "nat w = Suc a" using assms(3) unfolding a_def by arith
  have h: "nat h = Suc b" using assms(4) unfolding b_def by arith
  have "a + Suc a * b < Suc a * Suc b" by simp
  then have "nat (w - 1) + nat w * nat (h - 1) < nat w * nat h"
    unfolding w h a_def[symmetric] b_def[symmetric] .
  then show ?thesis using 1 2 by linarith
qed

lemma add_traps_le_density:
  assumes "add_traps cfg s = Inr s'" "tiles_in {WALL, FLOOR} (grid s)"
    and "0 \<le> trap_density cfg" "0 \<le> width cfg" "0 \<le> height cfg"
    and "width cfg * height cfg \<le> 2 ^ 53"
    and "0 < width cfg \<Longrightarrow> 0 < height cfg \<Longrightarrow> grid_get 0 0 (grid s) = Inr WALL"
  shows "int (count_tiles TRAP (grid s'))
         \<le> \<lfloor>rat_of_int (width cfg * height cfg) * trap_density cfg\<rfloor>"
proof -
  from assms(1) obtain floor_tiles trap_tiles t g where
    ft: "for_each (\<lambda>y. for_each (collect_floor (grid s) y) (py_range 0 (width cfg)))
       (py_range 0 (height cfg)) [] = Inr floor_tiles"
    and sm: "sample floor_tiles
       (min (py_int (round_double (round_double (rat_of_nat (length floor_tiles))
                                   * trap_density cfg)))
            (int (length floor_tiles))) (rng s) = Inr (trap_tiles, t)"
    and wr: "for_each (\<lambda>(x, y). grid_set x y TRAP) trap_tiles (grid s) = Inr g"
    and s': "s' = s\<lparr>grid := g, rng := t\<rparr>"
    by (rule add_trapsE)
  define n where "n = length floor_tiles"
  define N where "N = nat (width cfg) * nat (height cfg)"
  define target where
    "target = round_double (round_double (rat_of_nat n) * trap_density cfg)"
  have N: "rat_of_nat N = rat_of_int (width cfg * height cfg)"
    using assms(4,5) by (simp add: N_def)
  have "count_tiles TRAP (grid s) = 0"
    using assms(2) by (auto simp: tiles_in_def count_tiles_def count_list_0_iff)
  then have 1: "count_tiles TRAP g \<le> length trap_tiles"
    using trap_writes_count[OF wr] by simp
  have 2: "int (length trap_tiles) \<le> py_int target"
    using sample_Inr(2)[OF sm] by (simp add: target_def n_def)
  have "0 \<le> round_double (rat_of_nat n) * trap_density cfg"
    using assms(3) round_double_nonneg[of "rat_of_nat n"] by simp
  then have "0 \<le> target" unfolding target_def by (rule round_double_nonneg)
  then have 3: "py_int target = \<lfloor>target\<rfloor>" by (rule py_int_nonneg)
  have 4: "\<lfloor>target\<rfloor> \<le> \<lfloor>rat_of_nat N * trap_density cfg\<rfloor>"
  proof (cases "0 < width cfg \<and> 0 < height cfg")
    case True
    then have "grid_get 0 0 (grid s) = Inr WALL" using assms(7) by simp
    then have "n < N"
      using floor_tiles_length_less[OF ft] True by (simp add: n_def N_def)
    moreover have "N \<le> 2 ^ 53"
    proof -
      have "int N \<le> int (2 ^ 53)" using assms(4,5,6) by (simp add: N_def)
      then show ?thesis by (simp only: of_nat_le_iff)
    qed
    ultimately show ?thesis unfolding target_def using assms(3) by (rule trap_target_le)
  next
    case False
    then have N0: "N = 0" using assms(4,5) by (auto simp: N_def)
    have "n \<le> N" using floor_tiles_length[OF ft] by (simp only: n_def N_def)
    then have "n = 0" using N0 by simp
    then show ?thesis using N0 by (simp add: target_def)
  qed
  show ?thesis using 1 2 3 4 s' by (simp add: N)
qed

text \<open>
  C6. The trap tiles of the exported grid number at most
  \<open>floor (width * height * trap_density)\<close> and at most the floor tiles of the grid on which
  the trap pass started, for a configuration with a non-negative trap density,
  non-negative grid dimensions and a non-negative minimum room size, on a grid of at most
  \<open>2^53\<close> tiles (the counts that a double holds exactly). With \<open>trap_density = 0\<close> the first
  bound is 0.
\<close>

theorem trap_count_bounded:
  assumes "generate_dungeon rt cfg seed_arg = Inr d"
    and "layout_state rt cfg seed_arg = Inr s"
    and "0 \<le> trap_density cfg" and "0 \<le> width cfg" and "0 \<le> height cfg"
    and "0 \<le> min_room_size cfg" and "width cfg * height cfg \<le> 2 ^ 53"
  shows "int (count_tiles TRAP (d_grid d))
           \<le> \<lfloor>rat_of_int (width cfg * height cfg) * trap_density cfg\<rfloor> \<and>
         count_tiles TRAP (d_grid d) \<le> count_tiles FLOOR (grid s)"
proof -
  from assms(1,2) obtain s5 s6 where w: "tiles_in {WALL, FLOOR} (grid s)"
    and t: "add_traps cfg s = Inr s5" and sr: "add_secret_rooms cfg s5 = Inr s6"
    and d: "d = export cfg s6"
    by (rule layout_stateE)
  have o: "grid_get 0 0 (grid s) = Inr WALL" if "0 < width cfg" "0 < height cfg"
    using layout_origin[OF assms(2,6) that] .
  have "count_tiles TRAP (grid s6) \<le> count_tiles TRAP (grid s5)"
    by (rule add_secret_rooms_grid[OF sr floor_closed_traps]) simp
  then show ?thesis
    using add_traps_le_floor[OF t w] add_traps_le_density[OF t w assms(3,4,5,7) o]
    by (simp add: d export_def)
qed

theorem trap_count_bounded_witness:
  "generate_dungeon demo_runtime demo_config (Some 42) = Inr (demo_dungeon []) \<and>
   layout_state demo_runtime demo_config (Some 42) = Inr demo_layout \<and>
   0 \<le> trap_density demo_config \<and> 0 \<le> width demo_config \<and> 0 \<le> height demo_config \<and>
   0 \<le> min_room_size demo_config \<and> width demo_config * height demo_config \<le> 2 ^ 53 \<and>
   int (count_tiles TRAP (d_grid (demo_dungeon [])))
     \<le> \<lfloor>rat_of_int (width demo_config * height demo_config) * trap_density demo_config\<rfloor> \<and>
   count_tiles TRAP (d_grid (demo_dungeon [])) \<le> count_tiles FLOOR (grid demo_layout)"
proof -
  have h: "0 \<le> trap_density demo_config" "0 \<le> width demo_config" "0 \<le> height demo_config"
    "0 \<le> min_room_size demo_config" "width demo_config * height demo_config \<le> 2 ^ 53"
    by (simp_all add: demo_config_def round_double_nonneg)
  show ?thesis
    using trap_count_bounded[OF demo_run demo_layout_run h] demo_run demo_layout_run h
    by simp
qed

text \<open>The minimum room size matters. With rooms of size -4 on a 5 by 2 grid the corridors
  between the room centres cover the whole grid, column 0 included; the double product of
  the 10 floor tiles and the density 0.7 rounds up to 7.0, and 7 traps are placed, where
  the exact product has the floor 6.\<close>

lemma negative_room_size_traps:
  "map_sum id (\<lambda>d. count_tiles TRAP (d_grid d))
     (generate_dungeon corner_runtime corner_config (Some 42)) = Inr 7 \<and>
   \<lfloor>rat_of_int (width corner_config * height corner_config) * trap_density corner_config\<rfloor>
     = 6"
  by code_simp

subsection \<open>Runs on which the generator raises\<close>

text \<open>The connectivity phase returns only with fewer than two rooms or with at least
  four.\<close>

lemma connect_rooms_returns:
  assumes "connect_rooms rt cfg s = Inr s'"
  shows "length (rooms s) < 2 \<or> 4 \<le> length (rooms s)"
  using assms
proof (cases rule: connect_roomsE)
  case few
  then show ?thesis by simp
next
  case (many s1 n t)
  have "length (rooms s1) = length (rooms s)"
    using map_eq_nth(1)[OF spanning_loop_frame[OF many(2)]] .
  moreover have "1 \<le> int (length (rooms s1)) div 4"
    using randint_bounds[OF many(3)] by linarith
  ultimately show ?thesis by linarith
qed

text \<open>
  C4. With two rooms placed, \<^verbatim>\<open>_connect_rooms\<close> builds the tree and then asks for
  \<^verbatim>\<open>random.randint(1, 2 // 4)\<close>, an empty range: the run ends in \<^verbatim>\<open>ValueError\<close>
  instead of completing with its extra loop edges.
\<close>

theorem connect_rooms_two_rooms_raises:
  "rooms_placed demo_runtime two_room_config (Some 42) = Inr 2 \<and>
   generate_dungeon demo_runtime two_room_config (Some 42) = Inl ValueError"
  by code_simp

text \<open>On an empty room list the secret-room pass raises whenever its roll succeeds.\<close>

lemma add_secret_rooms_empty:
  assumes "rooms s = []" "fst (random (rng s)) \<le> secret_room_chance cfg"
  shows "add_secret_rooms cfg s = Inl IndexError"
proof -
  obtain p t where r: "random (rng s) = (p, t)" by (cases "random (rng s)")
  have "secret_loop cfg 10 (s\<lparr>rng := t\<rparr>) = Inl IndexError"
    using assms(1) by (simp add: eval_nat_numeral choice_def)
  then show ?thesis using assms(2) r by (simp add: add_secret_rooms_def)
qed

text \<open>
  C5. With no room placed and a secret-room roll that succeeds, \<^verbatim>\<open>_add_secret_rooms\<close>
  calls \<^verbatim>\<open>random.choice\<close> on the empty room list: the run ends in \<^verbatim>\<open>IndexError\<close>
  instead of an all-wall grid and an empty room list.
\<close>

theorem add_secret_rooms_no_rooms_raises:
  "rooms_placed zero_runtime no_room_config (Some 42) = Inr 0 \<and>
   generate_dungeon zero_runtime no_room_config (Some 42) = Inl IndexError"
  by code_simp

text \<open>A seed other than 0 fixes the whole run: the state of the module-level generator
  before seeding has no influence.\<close>

lemma spanning_loop_ambient:
  "spanning_loop (rt\<lparr>ambient := a\<rparr>) cfg conn unconn s = spanning_loop rt cfg conn unconn s"
proof (induction rt cfg conn unconn s rule: spanning_loop.induct)
  case (1 rt cfg conn unconn s)
  have i: "set_iter (rt\<lparr>ambient := a\<rparr>) xs = set_iter rt xs" for xs
    by (simp add: set_iter_def)
  show ?case
  proof (cases "unconn = []")
    case True
    then show ?thesis by (simp add: spanning_loop_Nil)
  next
    case False
    show ?thesis
      unfolding spanning_loop_step[OF False] i
      using "1.IH"[OF False]
      by (auto split: sum.splits prod.splits)
  qed
qed

lemma generate_ambient: "generate (rt\<lparr>ambient := a\<rparr>) cfg s = generate rt cfg s"
proof -
  have "connect_rooms (rt\<lparr>ambient := a\<rparr>) cfg = connect_rooms rt cfg"
    by (rule ext) (simp add: connect_rooms_def spanning_loop_ambient)
  then have "generate_layout (rt\<lparr>ambient := a\<rparr>) cfg = generate_layout rt cfg"
    by (intro ext) (simp add: generate_layout_def split: sum.splits)
  then show ?thesis by (simp add: generate_def)
qed

lemma nonzero_seed_reproducible:
  assumes "sd \<noteq> 0"
  shows "generate_dungeon (rt\<lparr>ambient := a\<rparr>) cfg (Some sd)
         = generate_dungeon (rt\<lparr>ambient := b\<rparr>) cfg (Some sd)"
  using assms
  by (simp add: generate_dungeon_def DungeonGenerator_init_def generate_ambient)

text \<open>
  C3. The seed 0 is supplied, and two runs that differ only in the state of the
  module-level generator before seeding return different dictionaries: the constructor
  treats 0 as no seed and draws one.
\<close>

theorem seed_zero_not_reproducible:
  "generate_dungeon (demo_runtime\<lparr>ambient := [7]\<rparr>) demo_config (Some 0)
   \<noteq> generate_dungeon (demo_runtime\<lparr>ambient := [9]\<rparr>) demo_config (Some 0) \<and>
   recorded_seed (generate_dungeon (demo_runtime\<lparr>ambient := [7]\<rparr>) demo_config (Some 0))
     = Inr 7 \<and>
   recorded_seed (generate_dungeon (demo_runtime\<lparr>ambient := [9]\<rparr>) demo_config (Some 0))
     = Inr 9"
  by code_simp

end
